theory Spec2Isabelle
  imports Complex_Main "HOL-Library.Sublist" "HOL-Library.AList" "HOL-Library.Log_Nat"
begin

section \<open>JavaScript values\<close>

text \<open>
  The statistics calculator of \<^verbatim>\<open>src/log-analyzer/js/stats.js\<close> reads loosely typed
  event payloads. A payload value is a number, a boolean or a string; a missing key reads as
  \<^verbatim>\<open>undefined\<close>, which is \<open>None\<close> here. Numbers are IEEE 754 binary64 values: a finite
  double is given by its exact rational value, the sign of zero is not distinguished
  (\<^verbatim>\<open>-0 === 0\<close>, and both are falsy).
\<close>

datatype jsnum = NaN | PosInf | NegInf | Fin rat

datatype jsval = Num jsnum | Bool bool | Str string

text \<open>The only exception the calculator can raise: a method call on a value without it.\<close>

datatype error = TypeError

type_synonym payload = "string \<Rightarrow> jsval option"

fun truthyNum :: "jsnum \<Rightarrow> bool" where
  "truthyNum NaN = False"
| "truthyNum (Fin q) = (q \<noteq> 0)"
| "truthyNum PosInf = True"
| "truthyNum NegInf = True"

fun truthy :: "jsval \<Rightarrow> bool" where
  "truthy (Num n) = truthyNum n"
| "truthy (Bool b) = b"
| "truthy (Str s) = (s \<noteq> [])"

definition truthyO :: "jsval option \<Rightarrow> bool" where
  "truthyO v = (case v of None \<Rightarrow> False | Some x \<Rightarrow> truthy x)"

definition truthyS :: "string option \<Rightarrow> bool" where
  "truthyS v = (case v of None \<Rightarrow> False | Some s \<Rightarrow> s \<noteq> [])"

text \<open>\<^verbatim>\<open>a || b\<close> on payload values and on numbers.\<close>

definition jsOr :: "jsval option \<Rightarrow> jsval option \<Rightarrow> jsval option" where
  "jsOr a b = (if truthyO a then a else b)"

definition numOr :: "jsnum \<Rightarrow> jsnum \<Rightarrow> jsnum" where
  "numOr a b = (if truthyNum a then a else b)"

text \<open>\<^verbatim>\<open>a === b\<close>: equal values of the same type, and \<^verbatim>\<open>NaN\<close> differs from itself.\<close>

definition strictEq :: "jsval option \<Rightarrow> jsval option \<Rightarrow> bool" where
  "strictEq a b = (a = b \<and> a \<noteq> Some (Num NaN))"

text \<open>\<^verbatim>\<open>s.includes(t)\<close> on strings: \<open>t\<close> occurs in \<open>s\<close> as a contiguous run.\<close>

fun str_includes :: "string \<Rightarrow> string \<Rightarrow> bool" where
  "str_includes [] t = (t = [])"
| "str_includes (c # s) t = (prefix t (c # s) \<or> str_includes s t)"

text \<open>\<^verbatim>\<open>v.includes(t)\<close> on a payload value: only strings have the method.\<close>

fun valIncludes :: "jsval \<Rightarrow> string \<Rightarrow> error + bool" where
  "valIncludes (Str s) t = Inr (str_includes s t)"
| "valIncludes (Num n) t = Inl TypeError"
| "valIncludes (Bool b) t = Inl TypeError"

text \<open>\<^verbatim>\<open>v && v.includes(t)\<close>, read as a condition.\<close>

definition andIncludes :: "jsval option \<Rightarrow> string \<Rightarrow> error + bool" where
  "andIncludes v t =
     (case v of
        None \<Rightarrow> Inr False
      | Some x \<Rightarrow> if truthy x then valIncludes x t else Inr False)"

subsection \<open>Double arithmetic\<close>

definition pow2 :: "int \<Rightarrow> rat" where
  "pow2 e = (if 0 \<le> e then 2 ^ nat e else 1 / 2 ^ nat (- e))"

text \<open>For \<open>0 < x\<close>, the exponent \<open>e\<close> with \<open>2\<^sup>e \<le> x < 2\<^sup>e\<^sup>+\<^sup>1\<close>.\<close>

definition ilog2 :: "rat \<Rightarrow> int" where
  "ilog2 x =
     (let (p, q) = quotient_of x;
          k = bitlen p - bitlen q
      in if pow2 k \<le> x then k else k - 1)"

text \<open>
  Rounding of an exact result to binary64: to nearest, ties to even. The significand
  \<open>m\<close> has 53 bits in the unit \<open>u = 2\<^sup>e\<^sup>-\<^sup>5\<^sup>2\<close>; below \<open>2\<^sup>-\<^sup>1\<^sup>0\<^sup>2\<^sup>2\<close> the unit stays
  \<open>2\<^sup>-\<^sup>1\<^sup>0\<^sup>7\<^sup>4\<close> (subnormal numbers). The result overflows to an infinity when it reaches
  \<open>2\<^sup>1\<^sup>0\<^sup>2\<^sup>4\<close>: the exponent is above 1023, or it is 1023 and the significand rounds up
  to \<open>2\<^sup>5\<^sup>3\<close>.
\<close>

definition fl_round :: "rat \<Rightarrow> jsnum" where
  "fl_round x =
     (if x = 0 then Fin 0
      else
        let a = \<bar>x\<bar>;
            e = max (ilog2 a) (- 1022);
            u = pow2 (e - 52);
            q = a / u;
            n = \<lfloor>q\<rfloor>;
            r = q - of_int n;
            m = (if r < 1 / 2 then n
                 else if 1 / 2 < r then n + 1
                 else if even n then n else n + 1)
        in if 1023 < e \<or> e = 1023 \<and> m = 2 ^ 53 then (if 0 < x then PosInf else NegInf)
           else Fin (if 0 < x then of_int m * u else - (of_int m * u)))"

text \<open>\<^verbatim>\<open>a + b\<close> on numbers.\<close>

fun fadd :: "jsnum \<Rightarrow> jsnum \<Rightarrow> jsnum" where
  "fadd (Fin a) (Fin b) = fl_round (a + b)"
| "fadd NaN b = NaN"
| "fadd a NaN = NaN"
| "fadd PosInf NegInf = NaN"
| "fadd NegInf PosInf = NaN"
| "fadd PosInf b = PosInf"
| "fadd NegInf b = NegInf"
| "fadd a PosInf = PosInf"
| "fadd a NegInf = NegInf"

subsection \<open>Built-in functions taken as parameters\<close>

text \<open>
  Two built-ins are not modelled digit by digit and are parameters of the model:
  \<^verbatim>\<open>parseFloat\<close> on a string, and the conversion of a number to the string that names a
  property. Every theorem below holds for all of their implementations.
\<close>

record host =
  parseFloatStr :: "string \<Rightarrow> jsnum"
  numberToString :: "jsnum \<Rightarrow> string"

text \<open>
  \<^verbatim>\<open>parseFloat(v)\<close>: the argument is converted to a string and parsed; a number prints to a
  string that parses back to it, \<^verbatim>\<open>"true"\<close>, \<^verbatim>\<open>"false"\<close> and \<^verbatim>\<open>"undefined"\<close> give
  \<^verbatim>\<open>NaN\<close>.
\<close>

definition parseFloat :: "host \<Rightarrow> jsval option \<Rightarrow> jsnum" where
  "parseFloat J v =
     (case v of
        None \<Rightarrow> NaN
      | Some (Num n) \<Rightarrow> n
      | Some (Bool b) \<Rightarrow> NaN
      | Some (Str s) \<Rightarrow> parseFloatStr J s)"

text \<open>The property name \<^verbatim>\<open>obj[v]\<close> addresses.\<close>

fun propertyKey :: "host \<Rightarrow> jsval \<Rightarrow> string" where
  "propertyKey J (Str s) = s"
| "propertyKey J (Bool b) = (if b then ''true'' else ''false'')"
| "propertyKey J (Num n) = numberToString J n"

section \<open>Events, sessions and statistics\<close>

text \<open>
  Modelled from the spec: the classes \<^verbatim>\<open>LogEvent\<close>, \<^verbatim>\<open>StrategySession\<close>,
  \<^verbatim>\<open>SessionStats\<close> and \<^verbatim>\<open>OrderDetail\<close> are not under \<^verbatim>\<open>src/\<close>. An event has a
  timestamp (in milliseconds), a level, optional category and subcategory tags, a
  message and a payload. A session has its events and a duration in milliseconds.
  \<^verbatim>\<open>SessionStats\<close> starts with every counter 0, every sample list empty and no fallback
  reason; its nested groups are flattened here, the group being the prefix of the field
  name. Counters count events and are natural numbers; the quantity totals are doubles.
  The fallback-reason object is an association list from property name to count, in
  insertion order.
\<close>

record event =
  timestamp :: int
  level :: string
  category :: "string option"
  subcategory :: "string option"
  message :: "string option"
  data :: payload

record session =
  events :: "event list"
  duration :: int

record SessionStats =
  runtime :: int
  spreadTriggers :: nat
  orderPairs_attempted :: nat
  orderPairs_succeeded :: nat
  orders_total :: nat
  orders_accepted :: nat
  orders_rejected :: nat
  orders_latencies :: "jsval list"
  fills_total :: nat
  fills_partial :: nat
  fills_full :: nat
  fills_totalQty :: jsnum
  fills_usdtQty :: jsnum
  fills_usdcQty :: jsnum
  fills_prices :: "jsnum list"
  fastChase_events :: nat
  fastChase_successes :: nat
  fastChase_retries :: "jsval list"
  fastChase_fallbackReasons :: "(string \<times> nat) list"
  errors_gtxRejections :: nat
  errors_apiErrors :: nat
  errors_timeouts :: nat
  errors_other :: nat

text \<open>
  Modelled from the spec: the constructor of \<^verbatim>\<open>SessionStats\<close>, which is not under
  \<^verbatim>\<open>src/\<close>. Every counter and total starts at 0, every sample list and the
  fallback-reason mapping start empty.
\<close>

definition newSessionStats :: SessionStats where
  "newSessionStats =
     \<lparr> runtime = 0, spreadTriggers = 0,
       orderPairs_attempted = 0, orderPairs_succeeded = 0,
       orders_total = 0, orders_accepted = 0, orders_rejected = 0, orders_latencies = [],
       fills_total = 0, fills_partial = 0, fills_full = 0,
       fills_totalQty = Fin 0, fills_usdtQty = Fin 0, fills_usdcQty = Fin 0,
       fills_prices = [],
       fastChase_events = 0, fastChase_successes = 0, fastChase_retries = [],
       fastChase_fallbackReasons = [],
       errors_gtxRejections = 0, errors_apiErrors = 0, errors_timeouts = 0,
       errors_other = 0 \<rparr>"

text \<open>The two correlation tables of one pass: \<^verbatim>\<open>orderMap\<close> and \<^verbatim>\<open>pairMap\<close>.\<close>

record order =
  o_symbol :: "jsval option"
  o_side :: "jsval option"
  o_qty :: "jsval option"
  o_price :: "jsval option"
  o_status :: string
  o_timestamp :: int
  o_pairId :: "jsval option"

record pair =
  usdtFilled :: bool
  usdcFilled :: bool

type_synonym orderMap = "jsval \<Rightarrow> order option"

text \<open>
  \<^verbatim>\<open>pairMap\<close> is iterated at the end of the pass, so it keeps its entries in insertion
  order: \<^verbatim>\<open>set\<close> on a present key keeps the key's place.
\<close>

type_synonym pairMap = "(jsval \<times> pair) list"

type_synonym reducer = "SessionStats \<times> orderMap \<times> pairMap"

definition pairMap_has :: "pairMap \<Rightarrow> jsval \<Rightarrow> bool" where
  "pairMap_has pm k = (map_of pm k \<noteq> None)"

definition newPair :: pair where
  "newPair = \<lparr> usdtFilled = False, usdcFilled = False \<rparr>"

text \<open>\<^verbatim>\<open>if (!pairMap.has(k)) pairMap.set(k, { usdtFilled: false, usdcFilled: false })\<close>\<close>

definition ensurePair :: "pairMap \<Rightarrow> jsval \<Rightarrow> pairMap" where
  "ensurePair pm k = (if \<not> pairMap_has pm k then AList.update k newPair pm else pm)"

text \<open>\<^verbatim>\<open>event.message && event.message.includes(t)\<close>, read as a condition.\<close>

definition msgIncludes :: "event \<Rightarrow> string \<Rightarrow> bool" where
  "msgIncludes e t =
     (case message e of None \<Rightarrow> False | Some m \<Rightarrow> m \<noteq> [] \<and> str_includes m t)"

section \<open>The per-event reducer \<^verbatim>\<open>processEvent\<close>\<close>

text \<open>case \<^verbatim>\<open>'ORDER_SUBMIT'\<close>\<close>

definition onOrderSubmit :: "event \<Rightarrow> reducer \<Rightarrow> reducer" where
  "onOrderSubmit e s =
     (case s of (stats, orderMap, pairMap) \<Rightarrow>
        (let stats1 = stats\<lparr> orders_total := orders_total stats + 1 \<rparr>
         in (case data e ''order_id'' of
               None \<Rightarrow> (stats1, orderMap, pairMap)
             | Some oid \<Rightarrow>
                 if truthy oid
                 then (stats1,
                       orderMap(oid \<mapsto>
                         \<lparr> o_symbol = data e ''symbol'', o_side = data e ''side'',
                           o_qty = data e ''qty'', o_price = data e ''price'',
                           o_status = ''pending'', o_timestamp = timestamp e,
                           o_pairId = data e ''pair_id'' \<rparr>),
                       pairMap)
                 else (stats1, orderMap, pairMap))))"

text \<open>
  case \<^verbatim>\<open>'ORDER_RESPONSE'\<close>. The two GTX tests of the source, the \<^verbatim>\<open>if / else if\<close> of
  the matched branch and the \<^verbatim>\<open>||\<close> of the unmatched one, evaluate the same calls in the
  same order: the error field first, the message only when the error field has no
  \<^verbatim>\<open>GTX\<close>.
\<close>

definition gtxMarked :: "event \<Rightarrow> error + bool" where
  "gtxMarked e =
     (case andIncludes (data e ''error'') ''GTX'' of
        Inl err \<Rightarrow> Inl err
      | Inr True \<Rightarrow> Inr True
      | Inr False \<Rightarrow> Inr (msgIncludes e ''GTX''))"

definition countRejection :: "event \<Rightarrow> SessionStats \<Rightarrow> error + SessionStats" where
  "countRejection e stats =
     (let stats1 = stats\<lparr> orders_rejected := orders_rejected stats + 1 \<rparr>
      in case gtxMarked e of
           Inl err \<Rightarrow> Inl err
         | Inr g \<Rightarrow>
             Inr (if g then stats1\<lparr> errors_gtxRejections := errors_gtxRejections stats1 + 1 \<rparr>
                  else stats1))"

definition onOrderResponse :: "event \<Rightarrow> reducer \<Rightarrow> error + reducer" where
  "onOrderResponse e s =
     (case s of (stats, orderMap, pairMap) \<Rightarrow>
        (let stats1 = (if truthyO (data e ''latency_ms'')
                      then stats\<lparr> orders_latencies :=
                                    orders_latencies stats @ [the (data e ''latency_ms'')] \<rparr>
                      else stats);
            isAccepted = msgIncludes e ''Order accepted'';
            isRejected = msgIncludes e ''Order rejected''
        in (case data e ''order_id'' of
             None \<Rightarrow> Inr (stats1, orderMap, pairMap)
           | Some oid \<Rightarrow>
               if \<not> truthy oid then Inr (stats1, orderMap, pairMap)
               else
                 (case orderMap oid of
                    Some ord \<Rightarrow>
                      if isAccepted \<or> data e ''status'' = Some (Str ''accepted'')
                           \<or> data e ''status'' = Some (Str ''NEW'')
                      then Inr (stats1\<lparr> orders_accepted := orders_accepted stats1 + 1 \<rparr>,
                                orderMap(oid \<mapsto> ord\<lparr> o_status := ''accepted'' \<rparr>), pairMap)
                      else if isRejected
                      then (case countRejection e stats1 of
                              Inl err \<Rightarrow> Inl err
                            | Inr stats2 \<Rightarrow>
                                Inr (stats2, orderMap(oid \<mapsto> ord\<lparr> o_status := ''rejected'' \<rparr>),
                                     pairMap))
                      else Inr (stats1, orderMap, pairMap)
                  | None \<Rightarrow>
                      if isAccepted
                      then Inr (stats1\<lparr> orders_accepted := orders_accepted stats1 + 1 \<rparr>,
                                orderMap, pairMap)
                      else if isRejected
                      then (case countRejection e stats1 of
                              Inl err \<Rightarrow> Inl err
                            | Inr stats2 \<Rightarrow> Inr (stats2, orderMap, pairMap))
                      else Inr (stats1, orderMap, pairMap)))))"

text \<open>case \<^verbatim>\<open>'ORDER_FILL'\<close>, block by block.\<close>

definition fillQty :: "host \<Rightarrow> event \<Rightarrow> jsnum" where
  "fillQty J e =
     numOr (numOr (numOr (parseFloat J (data e ''last_filled''))
                         (parseFloat J (data e ''filled'')))
                  (parseFloat J (data e ''qty'')))
           (Fin 0)"

text \<open>The symbol that selects the settlement-currency bucket.\<close>

definition fillSymbol :: "event \<Rightarrow> jsval" where
  "fillSymbol e =
     (let symbol = (if truthyO (data e ''symbol'') then the (data e ''symbol'') else Str [])
      in if \<not> truthy symbol \<and> truthyS (message e)
         then (if str_includes (the (message e)) ''USDT order filled'' then Str ''USDT''
               else if str_includes (the (message e)) ''USDC order filled'' then Str ''USDC''
               else symbol)
         else symbol)"

definition fillBucket :: "jsval \<Rightarrow> jsnum \<Rightarrow> SessionStats \<Rightarrow> error + SessionStats" where
  "fillBucket symbol q stats =
     (case valIncludes symbol ''USDT'' of
        Inl err \<Rightarrow> Inl err
      | Inr True \<Rightarrow> Inr (stats\<lparr> fills_usdtQty := fadd (fills_usdtQty stats) q \<rparr>)
      | Inr False \<Rightarrow>
          (case valIncludes symbol ''USDC'' of
             Inl err \<Rightarrow> Inl err
           | Inr True \<Rightarrow> Inr (stats\<lparr> fills_usdcQty := fadd (fills_usdcQty stats) q \<rparr>)
           | Inr False \<Rightarrow> Inr stats))"

definition fillPrice :: "host \<Rightarrow> event \<Rightarrow> SessionStats \<Rightarrow> SessionStats" where
  "fillPrice J e stats =
     (if truthyO (data e ''price'')
      then stats\<lparr> fills_prices := fills_prices stats @ [parseFloat J (data e ''price'')] \<rparr>
      else if truthyO (data e ''last_price'')
      then stats\<lparr> fills_prices := fills_prices stats @ [parseFloat J (data e ''last_price'')] \<rparr>
      else if truthyO (data e ''fill_price'')
      then stats\<lparr> fills_prices := fills_prices stats @ [parseFloat J (data e ''fill_price'')] \<rparr>
      else stats)"

text \<open>The pair leg of a filled order: \<^verbatim>\<open>pair.usdtFilled = true\<close> or \<^verbatim>\<open>pair.usdcFilled = true\<close>.\<close>

definition markLeg :: "order \<Rightarrow> jsval \<Rightarrow> pairMap \<Rightarrow> error + pairMap" where
  "markLeg ord pid pm =
     (let pm1 = ensurePair pm pid;
          p = the (map_of pm1 pid)
      in case andIncludes (o_symbol ord) ''USDT'' of
           Inl err \<Rightarrow> Inl err
         | Inr True \<Rightarrow> Inr (AList.update pid (p\<lparr> usdtFilled := True \<rparr>) pm1)
         | Inr False \<Rightarrow>
             (case andIncludes (o_symbol ord) ''USDC'' of
                Inl err \<Rightarrow> Inl err
              | Inr True \<Rightarrow> Inr (AList.update pid (p\<lparr> usdcFilled := True \<rparr>) pm1)
              | Inr False \<Rightarrow> Inr pm1))"

text \<open>The block \<^verbatim>\<open>// Update order status\<close>: the updates that need a matched order.\<close>

definition fillCorrelate :: "event \<Rightarrow> orderMap \<Rightarrow> pairMap \<Rightarrow> error + orderMap \<times> pairMap" where
  "fillCorrelate e orderMap pairMap =
     (case data e ''order_id'' of
        None \<Rightarrow> Inr (orderMap, pairMap)
      | Some oid \<Rightarrow>
          if \<not> truthy oid then Inr (orderMap, pairMap)
          else
            (case orderMap oid of
               None \<Rightarrow> Inr (orderMap, pairMap)
             | Some ord \<Rightarrow>
                 let ord1 = ord\<lparr> o_status := (if msgIncludes e ''Partial fill''
                                               then ''partial'' else ''filled'') \<rparr>;
                     orderMap1 = orderMap(oid \<mapsto> ord1)
                 in if truthyO (o_pairId ord1)
                    then (case markLeg ord1 (the (o_pairId ord1)) pairMap of
                            Inl err \<Rightarrow> Inl err
                          | Inr pairMap1 \<Rightarrow> Inr (orderMap1, pairMap1))
                    else Inr (orderMap1, pairMap)))"

text \<open>The counters of a fill that need no matched order.\<close>

definition fillCounters :: "host \<Rightarrow> event \<Rightarrow> SessionStats \<Rightarrow> error + SessionStats" where
  "fillCounters J e stats =
     (let stats1 = stats\<lparr> fills_total := fills_total stats + 1 \<rparr>;
          stats2 = (if msgIncludes e ''Partial fill''
                        \<or> data e ''fill_type'' = Some (Str ''partial'')
                    then stats1\<lparr> fills_partial := fills_partial stats1 + 1 \<rparr>
                    else stats1\<lparr> fills_full := fills_full stats1 + 1 \<rparr>);
          stats3 = stats2\<lparr> fills_totalQty := fadd (fills_totalQty stats2) (fillQty J e) \<rparr>
      in case fillBucket (fillSymbol e) (fillQty J e) stats3 of
           Inl err \<Rightarrow> Inl err
         | Inr stats4 \<Rightarrow> Inr (fillPrice J e stats4))"

definition onOrderFill :: "host \<Rightarrow> event \<Rightarrow> reducer \<Rightarrow> error + reducer" where
  "onOrderFill J e s =
     (case s of (stats, orderMap, pairMap) \<Rightarrow>
        (case fillCounters J e stats of
           Inl err \<Rightarrow> Inl err
         | Inr stats1 \<Rightarrow>
             (case fillCorrelate e orderMap pairMap of
                Inl err \<Rightarrow> Inl err
              | Inr (orderMap1, pairMap1) \<Rightarrow> Inr (stats1, orderMap1, pairMap1))))"

text \<open>cases \<^verbatim>\<open>'PARALLEL_ORDER'\<close> and \<^verbatim>\<open>'PAIR_LINK'\<close>: the same body.\<close>

definition onPairEvent :: "event \<Rightarrow> reducer \<Rightarrow> reducer" where
  "onPairEvent e s =
     (case s of (stats, orderMap, pairMap) \<Rightarrow>
        if truthyO (data e ''pair_id'')
        then (stats, orderMap, ensurePair pairMap (the (data e ''pair_id'')))
        else s)"

text \<open>\<^verbatim>\<open>processFastChaseEvent\<close>\<close>

definition bumpReason :: "(string \<times> nat) list \<Rightarrow> string \<Rightarrow> (string \<times> nat) list" where
  "bumpReason fr k =
     AList.update k ((case map_of fr k of None \<Rightarrow> 0 | Some c \<Rightarrow> c) + 1) fr"

definition processFastChaseEvent :: "host \<Rightarrow> event \<Rightarrow> SessionStats \<Rightarrow> SessionStats" where
  "processFastChaseEvent J e stats =
     (let msg = (if truthyS (message e) then the (message e) else [])
      in if str_includes msg ''Entering fast chase mode''
         then stats\<lparr> fastChase_events := fastChase_events stats + 1 \<rparr>
         else if str_includes msg ''Fast chase completed successfully''
         then (let stats1 = stats\<lparr> fastChase_successes := fastChase_successes stats + 1 \<rparr>
               in case data e ''retry_count'' of
                    None \<Rightarrow> stats1
                  | Some rc \<Rightarrow> stats1\<lparr> fastChase_retries := fastChase_retries stats1 @ [rc] \<rparr>)
         else if str_includes msg ''fallback'' \<or> str_includes msg ''Fallback''
                   \<or> str_includes msg ''FALLBACK''
         then (let reason = (if truthyO (data e ''reason'') then the (data e ''reason'')
                             else Str ''unknown'')
               in stats\<lparr> fastChase_fallbackReasons :=
                           bumpReason (fastChase_fallbackReasons stats) (propertyKey J reason) \<rparr>)
         else stats)"

text \<open>The \<^verbatim>\<open>default\<close> case: the error classification by message.\<close>

definition onOther :: "event \<Rightarrow> SessionStats \<Rightarrow> SessionStats" where
  "onOther e stats =
     (if level e = ''ERROR''
      then (if msgIncludes e ''timeout''
            then stats\<lparr> errors_timeouts := errors_timeouts stats + 1 \<rparr>
            else if msgIncludes e ''API''
            then stats\<lparr> errors_apiErrors := errors_apiErrors stats + 1 \<rparr>
            else stats\<lparr> errors_other := errors_other stats + 1 \<rparr>)
      else stats)"

definition processEvent :: "host \<Rightarrow> event \<Rightarrow> reducer \<Rightarrow> error + reducer" where
  "processEvent J e s =
     (if \<not> truthyS (category e) then Inr s
      else case s of (stats, orderMap, pairMap) \<Rightarrow>
        if subcategory e = Some ''SPREAD_MET''
        then Inr (stats\<lparr> spreadTriggers := spreadTriggers stats + 1 \<rparr>, orderMap, pairMap)
        else if subcategory e = Some ''ORDER_SUBMIT'' then Inr (onOrderSubmit e s)
        else if subcategory e = Some ''ORDER_RESPONSE'' then onOrderResponse e s
        else if subcategory e = Some ''ORDER_FILL'' then onOrderFill J e s
        else if subcategory e = Some ''PARALLEL_ORDER'' then Inr (onPairEvent e s)
        else if subcategory e = Some ''PAIR_LINK'' then Inr (onPairEvent e s)
        else if subcategory e = Some ''FAST_CHASE''
        then Inr (processFastChaseEvent J e stats, orderMap, pairMap)
        else if subcategory e = Some ''BALANCE'' then Inr s
        else if subcategory e = Some ''ORDER_STATE''
        then (if msgIncludes e ''GTX rejected''
              then Inr (stats\<lparr> errors_gtxRejections := errors_gtxRejections stats + 1 \<rparr>,
                        orderMap, pairMap)
              else Inr s)
        else if subcategory e = Some ''ORDER_CANCEL'' then Inr s
        else if subcategory e = Some ''ORDER_TIMEOUT''
        then Inr (stats\<lparr> errors_timeouts := errors_timeouts stats + 1 \<rparr>, orderMap, pairMap)
        else Inr (onOther e stats, orderMap, pairMap))"

section \<open>\<^verbatim>\<open>calculateSessionStats\<close> and \<^verbatim>\<open>calculateAggregateStats\<close>\<close>

text \<open>The loop \<^verbatim>\<open>for (const event of session.events)\<close>: an exception ends the pass.\<close>

fun processEvents :: "host \<Rightarrow> event list \<Rightarrow> reducer \<Rightarrow> error + reducer" where
  "processEvents J [] s = Inr s"
| "processEvents J (e # es) s =
     (case processEvent J e s of
        Inl err \<Rightarrow> Inl err
      | Inr s1 \<Rightarrow> processEvents J es s1)"

text \<open>The loop \<^verbatim>\<open>for (const [pairId, pair] of pairMap)\<close>.\<close>

fun countPairs :: "pairMap \<Rightarrow> SessionStats \<Rightarrow> SessionStats" where
  "countPairs [] stats = stats"
| "countPairs ((pairId, p) # pm) stats =
     (let stats1 = stats\<lparr> orderPairs_attempted := orderPairs_attempted stats + 1 \<rparr>
      in countPairs pm
           (if usdtFilled p \<and> usdcFilled p
            then stats1\<lparr> orderPairs_succeeded := orderPairs_succeeded stats1 + 1 \<rparr>
            else stats1))"

definition calculateSessionStats :: "host \<Rightarrow> session \<Rightarrow> error + SessionStats" where
  "calculateSessionStats J sess =
     (case processEvents J (events sess)
             (newSessionStats\<lparr> runtime := duration sess \<rparr>, Map.empty, []) of
        Inl err \<Rightarrow> Inl err
      | Inr (stats, orderMap, pairMap) \<Rightarrow> Inr (countPairs pairMap stats))"

text \<open>
  The body of the loop of \<^verbatim>\<open>calculateAggregateStats\<close>: every counter is added, every
  sample list is appended, every fallback reason is added under its key.
\<close>

fun mergeReasons :: "(string \<times> nat) list \<Rightarrow> (string \<times> nat) list \<Rightarrow> (string \<times> nat) list" where
  "mergeReasons agg [] = agg"
| "mergeReasons agg ((reason, count) # rs) =
     mergeReasons
       (AList.update reason ((case map_of agg reason of None \<Rightarrow> 0 | Some c \<Rightarrow> c) + count) agg)
       rs"

definition addStats :: "SessionStats \<Rightarrow> SessionStats \<Rightarrow> SessionStats" where
  "addStats aggregate sessionStats =
     \<lparr> runtime = runtime aggregate + runtime sessionStats,
       spreadTriggers = spreadTriggers aggregate + spreadTriggers sessionStats,
       orderPairs_attempted = orderPairs_attempted aggregate + orderPairs_attempted sessionStats,
       orderPairs_succeeded = orderPairs_succeeded aggregate + orderPairs_succeeded sessionStats,
       orders_total = orders_total aggregate + orders_total sessionStats,
       orders_accepted = orders_accepted aggregate + orders_accepted sessionStats,
       orders_rejected = orders_rejected aggregate + orders_rejected sessionStats,
       orders_latencies = orders_latencies aggregate @ orders_latencies sessionStats,
       fills_total = fills_total aggregate + fills_total sessionStats,
       fills_partial = fills_partial aggregate + fills_partial sessionStats,
       fills_full = fills_full aggregate + fills_full sessionStats,
       fills_totalQty = fadd (fills_totalQty aggregate) (fills_totalQty sessionStats),
       fills_usdtQty = fadd (fills_usdtQty aggregate) (fills_usdtQty sessionStats),
       fills_usdcQty = fadd (fills_usdcQty aggregate) (fills_usdcQty sessionStats),
       fills_prices = fills_prices aggregate @ fills_prices sessionStats,
       fastChase_events = fastChase_events aggregate + fastChase_events sessionStats,
       fastChase_successes = fastChase_successes aggregate + fastChase_successes sessionStats,
       fastChase_retries = fastChase_retries aggregate @ fastChase_retries sessionStats,
       fastChase_fallbackReasons =
         mergeReasons (fastChase_fallbackReasons aggregate)
           (fastChase_fallbackReasons sessionStats),
       errors_gtxRejections = errors_gtxRejections aggregate + errors_gtxRejections sessionStats,
       errors_apiErrors = errors_apiErrors aggregate + errors_apiErrors sessionStats,
       errors_timeouts = errors_timeouts aggregate + errors_timeouts sessionStats,
       errors_other = errors_other aggregate + errors_other sessionStats \<rparr>"

fun aggregateFrom :: "host \<Rightarrow> SessionStats \<Rightarrow> session list \<Rightarrow> error + SessionStats" where
  "aggregateFrom J aggregate [] = Inr aggregate"
| "aggregateFrom J aggregate (sess # sessions) =
     (case calculateSessionStats J sess of
        Inl err \<Rightarrow> Inl err
      | Inr sessionStats \<Rightarrow> aggregateFrom J (addStats aggregate sessionStats) sessions)"

definition calculateAggregateStats :: "host \<Rightarrow> session list \<Rightarrow> error + SessionStats" where
  "calculateAggregateStats J sessions = aggregateFrom J newSessionStats sessions"

section \<open>Order detail extraction\<close>

text \<open>
  Modelled from the spec: the constructor of \<^verbatim>\<open>OrderDetail\<close> (not under \<^verbatim>\<open>src/\<close>)
  stores the fields it is given, the field \<^verbatim>\<open>timestamp\<close> as \<^verbatim>\<open>submitTime\<close>; the fill
  fields are absent until a fill sets them. \<^verbatim>\<open>null\<close> and \<^verbatim>\<open>undefined\<close> are both
  \<open>None\<close>: no comparison of the source tells them apart.
\<close>

record OrderDetail =
  submitTime :: int
  fillTime :: "int option"
  symbol :: "jsval option"
  side :: "jsval option"
  orderType :: jsval
  quantity :: "jsval option"
  price :: "jsval option"
  status :: string
  orderId :: "jsval option"
  latency :: "jsval option"
  pairId :: "jsval option"
  filledQty :: "jsnum option"
  cumulativeFilled :: "jsnum option"
  accumulated :: "jsnum option"

text \<open>An entry of \<^verbatim>\<open>pendingSubmits\<close>.\<close>

record pendingSubmit =
  p_timestamp :: int
  p_symbol :: "jsval option"
  p_side :: "jsval option"
  p_orderType :: jsval
  p_quantity :: "jsval option"
  p_price :: "jsval option"

text \<open>\<^verbatim>\<open>xs.findIndex(P)\<close>, with \<open>None\<close> for \<^verbatim>\<open>-1\<close>, and \<^verbatim>\<open>xs.splice(i, 1)\<close>.\<close>

fun findIndex :: "('a \<Rightarrow> bool) \<Rightarrow> 'a list \<Rightarrow> nat option" where
  "findIndex P [] = None"
| "findIndex P (x # xs) = (if P x then Some 0 else map_option Suc (findIndex P xs))"

definition splice1 :: "nat \<Rightarrow> 'a list \<Rightarrow> 'a list" where
  "splice1 i xs = take i xs @ drop (Suc i) xs"

definition newPending :: "event \<Rightarrow> pendingSubmit" where
  "newPending e =
     \<lparr> p_timestamp = timestamp e, p_symbol = data e ''symbol'', p_side = data e ''side'',
       p_orderType = (if truthyO (data e ''type'') then the (data e ''type'') else Str ''LIMIT''),
       p_quantity = data e ''qty'', p_price = data e ''price'' \<rparr>"

text \<open>
  The lines \<^verbatim>\<open>findIndex\<close> / \<^verbatim>\<open>splice\<close> of an \<^verbatim>\<open>ORDER_RESPONSE\<close>: the matched submission, if
  any, and the pending list without it.
\<close>

definition takeSubmit ::
  "jsval option \<Rightarrow> pendingSubmit list \<Rightarrow> pendingSubmit option \<times> pendingSubmit list" where
  "takeSubmit sy pendingSubmits =
     (case findIndex (\<lambda>s. strictEq (p_symbol s) sy) pendingSubmits of
        None \<Rightarrow> (None, pendingSubmits)
      | Some submitIdx \<Rightarrow> (Some (pendingSubmits ! submitIdx), splice1 submitIdx pendingSubmits))"

definition responseStatus :: "event \<Rightarrow> string" where
  "responseStatus e =
     (if msgIncludes e ''Order accepted'' then ''accepted''
      else if msgIncludes e ''Order rejected'' then ''rejected'' else ''unknown'')"

text \<open>The \<^verbatim>\<open>new OrderDetail({...})\<close> of an \<^verbatim>\<open>ORDER_RESPONSE\<close>, the same in both variants.\<close>

definition responseDetail :: "event \<Rightarrow> jsval \<Rightarrow> pendingSubmit option \<Rightarrow> OrderDetail" where
  "responseDetail e oid submitInfo =
     \<lparr> submitTime = (case submitInfo of Some si \<Rightarrow> p_timestamp si | None \<Rightarrow> timestamp e),
       fillTime = None,
       symbol = data e ''symbol'',
       side = (case submitInfo of Some si \<Rightarrow> p_side si | None \<Rightarrow> None),
       orderType = (case submitInfo of Some si \<Rightarrow> p_orderType si | None \<Rightarrow> Str ''LIMIT''),
       quantity = (case submitInfo of Some si \<Rightarrow> p_quantity si | None \<Rightarrow> None),
       price = (case submitInfo of Some si \<Rightarrow> p_price si | None \<Rightarrow> None),
       status = responseStatus e,
       orderId = Some oid,
       latency = jsOr (data e ''latency_ms'') None,
       pairId = None,
       filledQty = None, cumulativeFilled = None, accumulated = None \<rparr>"

subsection \<open>\<^verbatim>\<open>extractOrderDetails\<close>: one row per response, across sessions\<close>

text \<open>
  \<^verbatim>\<open>orders\<close> and \<^verbatim>\<open>orderMap\<close> share the detail objects: a fill mutates, through
  \<^verbatim>\<open>orderMap\<close>, an object that is also an element of \<^verbatim>\<open>orders\<close>. Objects are only ever
  pushed to \<^verbatim>\<open>orders\<close> before the final sort, so the position of an object in \<^verbatim>\<open>orders\<close>
  is its address, and \<^verbatim>\<open>orderMap\<close> maps an order-id to that position.
\<close>

type_synonym details = "OrderDetail list \<times> (jsval \<Rightarrow> nat option) \<times> pendingSubmit list"

definition fillDetail :: "host \<Rightarrow> event \<Rightarrow> OrderDetail \<Rightarrow> OrderDetail" where
  "fillDetail J e detail =
     (let d1 = detail\<lparr> fillTime := Some (timestamp e) \<rparr>;
          d2 = (if data e ''last_filled'' \<noteq> None
                then d1\<lparr> filledQty := Some (numOr (parseFloat J (data e ''last_filled'')) (Fin 0)) \<rparr>
                else d1);
          d3 = (if data e ''accumulated'' \<noteq> None
                then d2\<lparr> accumulated := Some (numOr (parseFloat J (data e ''accumulated'')) (Fin 0)) \<rparr>
                else d2)
      in d3\<lparr> status := (if msgIncludes e ''Partial fill'' then ''partial'' else ''filled'') \<rparr>)"

definition detailsStep :: "host \<Rightarrow> event \<Rightarrow> details \<Rightarrow> details" where
  "detailsStep J e s =
     (case s of (orders, orderMap, pendingSubmits) \<Rightarrow>
        if subcategory e = Some ''ORDER_SUBMIT''
        then (orders, orderMap, pendingSubmits @ [newPending e])
        else if subcategory e = Some ''ORDER_RESPONSE''
        then (case data e ''order_id'' of
                None \<Rightarrow> s
              | Some oid \<Rightarrow>
                  if \<not> truthy oid then s
                  else (case takeSubmit (data e ''symbol'') pendingSubmits of
                          (submitInfo, pendingSubmits1) \<Rightarrow>
                            (orders @ [responseDetail e oid submitInfo],
                             orderMap(oid \<mapsto> length orders),
                             pendingSubmits1)))
        else if subcategory e = Some ''ORDER_FILL''
        then (case data e ''order_id'' of
                None \<Rightarrow> s
              | Some oid \<Rightarrow>
                  if \<not> truthy oid then s
                  else (case orderMap oid of
                          None \<Rightarrow> s
                        | Some i \<Rightarrow> (orders[i := fillDetail J e (orders ! i)], orderMap,
                                     pendingSubmits)))
        else s)"

definition extractOrderDetails :: "host \<Rightarrow> session list \<Rightarrow> OrderDetail list" where
  "extractOrderDetails J sessions =
     (case foldl (\<lambda>s e. detailsStep J e s) ([], Map.empty, []) (concat (map events sessions)) of
        (orders, orderMap, pendingSubmits) \<Rightarrow> sort_key submitTime orders)"

subsection \<open>\<^verbatim>\<open>extractOrdersBySession\<close>: one row per response or fill, per session\<close>

record baseOrder =
  b_submitTime :: int
  b_symbol :: "jsval option"
  b_side :: "jsval option"
  b_orderType :: jsval
  b_quantity :: "jsval option"
  b_price :: "jsval option"
  b_latency :: "jsval option"
  b_status :: string

type_synonym rowsState = "OrderDetail list \<times> (jsval \<Rightarrow> baseOrder option) \<times> pendingSubmit list"

definition responseBase :: "event \<Rightarrow> pendingSubmit option \<Rightarrow> baseOrder" where
  "responseBase e submitInfo =
     \<lparr> b_submitTime = (case submitInfo of Some si \<Rightarrow> p_timestamp si | None \<Rightarrow> timestamp e),
       b_symbol = data e ''symbol'',
       b_side = (case submitInfo of Some si \<Rightarrow> p_side si | None \<Rightarrow> None),
       b_orderType = (case submitInfo of Some si \<Rightarrow> p_orderType si | None \<Rightarrow> Str ''LIMIT''),
       b_quantity = (case submitInfo of Some si \<Rightarrow> p_quantity si | None \<Rightarrow> None),
       b_price = (case submitInfo of Some si \<Rightarrow> p_price si | None \<Rightarrow> None),
       b_latency = jsOr (data e ''latency_ms'') None,
       b_status = responseStatus e \<rparr>"

text \<open>The fill row of an \<^verbatim>\<open>ORDER_FILL\<close>; \<open>base\<close> is \<^verbatim>\<open>orderMap.get(orderId)\<close>.\<close>

definition fillRow :: "host \<Rightarrow> event \<Rightarrow> baseOrder option \<Rightarrow> OrderDetail" where
  "fillRow J e base =
     \<lparr> submitTime = (case base of Some b \<Rightarrow> b_submitTime b | None \<Rightarrow> timestamp e),
       fillTime = Some (timestamp e),
       symbol = jsOr (data e ''symbol'') (case base of Some b \<Rightarrow> b_symbol b | None \<Rightarrow> None),
       side = (case base of Some b \<Rightarrow> b_side b | None \<Rightarrow> None),
       orderType = (case base of Some b \<Rightarrow> b_orderType b | None \<Rightarrow> Str ''LIMIT''),
       quantity = (case base of Some b \<Rightarrow> b_quantity b | None \<Rightarrow> None),
       price = jsOr (jsOr (data e ''last_price'') (data e ''price''))
                 (case base of Some b \<Rightarrow> b_price b | None \<Rightarrow> None),
       status = (if msgIncludes e ''Partial fill'' then ''partial'' else ''filled''),
       orderId = data e ''order_id'',
       latency = (case base of Some b \<Rightarrow> b_latency b | None \<Rightarrow> None),
       pairId = None,
       filledQty = Some (numOr (parseFloat J (data e ''last_filled'')) (Fin 0)),
       cumulativeFilled =
         Some (numOr (numOr (parseFloat J (data e ''cumulative_filled''))
                            (parseFloat J (data e ''total_filled'')))
                     (Fin 0)),
       accumulated = Some (numOr (parseFloat J (data e ''accumulated'')) (Fin 0)) \<rparr>"

text \<open>The test \<^verbatim>\<open>r.orderId === orderId && r.status === 'accepted'\<close>.\<close>

definition acceptedRowOf :: "jsval option \<Rightarrow> OrderDetail \<Rightarrow> bool" where
  "acceptedRowOf oid r = (strictEq (orderId r) oid \<and> status r = ''accepted'')"

text \<open>\<^verbatim>\<open>const r = rows.find(P); if (r) r.status = st\<close>\<close>

definition setFirstStatus ::
  "(OrderDetail \<Rightarrow> bool) \<Rightarrow> string \<Rightarrow> OrderDetail list \<Rightarrow> OrderDetail list" where
  "setFirstStatus P st rows =
     (case findIndex P rows of
        None \<Rightarrow> rows
      | Some i \<Rightarrow> rows[i := (rows ! i)\<lparr> status := st \<rparr>])"

definition rowsStep :: "host \<Rightarrow> event \<Rightarrow> rowsState \<Rightarrow> rowsState" where
  "rowsStep J e s =
     (case s of (rows, orderMap, pendingSubmits) \<Rightarrow>
        if subcategory e = Some ''ORDER_SUBMIT''
        then (rows, orderMap, pendingSubmits @ [newPending e])
        else if subcategory e = Some ''ORDER_RESPONSE''
        then (case data e ''order_id'' of
                None \<Rightarrow> s
              | Some oid \<Rightarrow>
                  if \<not> truthy oid then s
                  else (case takeSubmit (data e ''symbol'') pendingSubmits of
                          (submitInfo, pendingSubmits1) \<Rightarrow>
                            (rows @ [responseDetail e oid submitInfo],
                             orderMap(oid \<mapsto> responseBase e submitInfo),
                             pendingSubmits1)))
        else if subcategory e = Some ''ORDER_FILL''
        then (let oid = data e ''order_id'';
                  base = (case oid of None \<Rightarrow> None | Some k \<Rightarrow> orderMap k);
                  rows1 = rows @ [fillRow J e base]
              in case findIndex (acceptedRowOf oid) rows1 of
                   None \<Rightarrow> (rows1, orderMap, pendingSubmits)
                 | Some acceptedIdx \<Rightarrow> (splice1 acceptedIdx rows1, orderMap, pendingSubmits))
        else if subcategory e = Some ''ORDER_STATE''
        then (case data e ''order_id'' of
                None \<Rightarrow> s
              | Some oid \<Rightarrow>
                  if \<not> truthy oid then s
                  else (case orderMap oid of
                          None \<Rightarrow> s
                        | Some base \<Rightarrow>
                            if msgIncludes e ''GTX rejected''
                            then (setFirstStatus (acceptedRowOf (Some oid)) ''rejected'' rows,
                                  orderMap(oid \<mapsto> base\<lparr> b_status := ''rejected'' \<rparr>),
                                  pendingSubmits)
                            else if msgIncludes e ''canceled''
                            then (setFirstStatus (acceptedRowOf (Some oid)) ''canceled'' rows,
                                  orderMap(oid \<mapsto> base\<lparr> b_status := ''canceled'' \<rparr>),
                                  pendingSubmits)
                            else s))
        else if subcategory e = Some ''PAIR_LINK''
        then (map (\<lambda>r. if strictEq (orderId r) (data e ''usdt_order'')
                             \<or> strictEq (orderId r) (data e ''usdc_order'')
                          then r\<lparr> pairId := data e ''pair_id'' \<rparr> else r) rows,
              orderMap, pendingSubmits)
        else s)"

text \<open>The rows of one session, before and after the final sort.\<close>

definition sessionRowsState :: "host \<Rightarrow> event list \<Rightarrow> rowsState" where
  "sessionRowsState J es = foldl (\<lambda>s e. rowsStep J e s) ([], Map.empty, []) es"

definition rowTime :: "OrderDetail \<Rightarrow> int" where
  "rowTime r = (case fillTime r of Some t \<Rightarrow> t | None \<Rightarrow> submitTime r)"

definition sessionRows :: "host \<Rightarrow> session \<Rightarrow> OrderDetail list" where
  "sessionRows J sess =
     (case sessionRowsState J (events sess) of
        (rows, orderMap, pendingSubmits) \<Rightarrow> sort_key rowTime rows)"

text \<open>
  One element of the result: the session (the source copies its descriptive fields),
  its statistics (the source copies a selection of them) and its rows.
\<close>

record sessionOrders =
  so_session :: session
  so_stats :: SessionStats
  so_orders :: "OrderDetail list"

fun extractOrdersBySession :: "host \<Rightarrow> session list \<Rightarrow> error + sessionOrders list" where
  "extractOrdersBySession J [] = Inr []"
| "extractOrdersBySession J (sess # sessions) =
     (case calculateSessionStats J sess of
        Inl err \<Rightarrow> Inl err
      | Inr sessionStats \<Rightarrow>
          (case extractOrdersBySession J sessions of
             Inl err \<Rightarrow> Inl err
           | Inr result \<Rightarrow>
               Inr (\<lparr> so_session = sess, so_stats = sessionStats,
                      so_orders = sessionRows J sess \<rparr> # result)))"

section \<open>Notions used in the statements\<close>

text \<open>
  The tokenizer gives a subcategory only to a line tagged \<^verbatim>\<open>LIFECYCLE\<close> or \<^verbatim>\<open>AUDIT\<close>,
  and \<^verbatim>\<open>processEvent\<close> returns at once on an event without category. An event of
  subcategory \<open>sub\<close> that the reducer processes:
\<close>

definition processed :: "string \<Rightarrow> event \<Rightarrow> bool" where
  "processed sub e = (truthyS (category e) \<and> subcategory e = Some sub)"

text \<open>
  A host for closed examples. The examples hold no string that \<^verbatim>\<open>parseFloat\<close> reads and
  no numeric fallback reason, so neither built-in is called in them.
\<close>

definition exampleHost :: host where
  "exampleHost = \<lparr> parseFloatStr = (\<lambda>s. NaN), numberToString = (\<lambda>n. []) \<rparr>"

text \<open>An \<^verbatim>\<open>[AUDIT][sub]\<close> event with a message and a payload.\<close>

definition audit :: "string \<Rightarrow> string \<Rightarrow> (string \<times> jsval) list \<Rightarrow> event" where
  "audit sub msg kvs =
     \<lparr> timestamp = 0, level = ''INFO'', category = Some ''AUDIT'', subcategory = Some sub,
       message = Some msg, data = map_of kvs \<rparr>"

text \<open>A session with a partial fill, a spread trigger and a full fill.\<close>

definition fillsSession :: session where
  "fillsSession =
     \<lparr> events =
         [audit ''ORDER_FILL'' ''Partial fill''
            [(''order_id'', Num (Fin 7)), (''symbol'', Str ''ETHUSDT''),
             (''last_filled'', Num (Fin 1))],
          audit ''SPREAD_MET'' ''Spread condition met'' [],
          audit ''ORDER_FILL'' ''USDC order filled''
            [(''order_id'', Num (Fin 8)), (''filled'', Num (Fin 2))]],
       duration = 5000 \<rparr>"

text \<open>A payload field on which \<^verbatim>\<open>v && v.includes(t)\<close> raises nothing: absent, falsy or a string.\<close>

definition stringish :: "jsval option \<Rightarrow> bool" where
  "stringish v = (case v of None \<Rightarrow> True | Some (Str s) \<Rightarrow> True | Some x \<Rightarrow> \<not> truthy x)"

text \<open>
  The payloads on which the reducer raises nothing: the symbol and error fields of every
  event, and so the symbol of every registered order, are absent, falsy or strings.
\<close>

definition typedEvent :: "event \<Rightarrow> bool" where
  "typedEvent e = (stringish (data e ''symbol'') \<and> stringish (data e ''error''))"

definition typedOrders :: "orderMap \<Rightarrow> bool" where
  "typedOrders om = (\<forall>oid ord. om oid = Some ord \<longrightarrow> stringish (o_symbol ord))"

text \<open>
  A fill whose order-id is absent, falsy or not registered in \<^verbatim>\<open>orderMap\<close>, for the
  \<^verbatim>\<open>orderMap\<close> of the reducer and for that of the extraction.
\<close>

definition unmatched :: "(jsval \<Rightarrow> 'a option) \<Rightarrow> event \<Rightarrow> bool" where
  "unmatched om e =
     (case data e ''order_id'' of None \<Rightarrow> True | Some oid \<Rightarrow> \<not> truthy oid \<or> om oid = None)"

text \<open>A parse result that \<^verbatim>\<open>||\<close> keeps: a number other than \<^verbatim>\<open>NaN\<close> and 0.\<close>

definition nonzeroNumber :: "jsnum \<Rightarrow> bool" where
  "nonzeroNumber n = (n \<noteq> NaN \<and> n \<noteq> Fin 0)"

text \<open>The price sample of a fill: of the first truthy field among price, last price, fill price.\<close>

definition priceSample :: "host \<Rightarrow> event \<Rightarrow> jsnum list" where
  "priceSample J e =
     (if truthyO (data e ''price'') then [parseFloat J (data e ''price'')]
      else if truthyO (data e ''last_price'') then [parseFloat J (data e ''last_price'')]
      else if truthyO (data e ''fill_price'') then [parseFloat J (data e ''fill_price'')]
      else [])"

text \<open>The \<^verbatim>\<open>case\<close> labels of the \<^verbatim>\<open>switch\<close> of \<^verbatim>\<open>processEvent\<close>.\<close>

definition handledSubcategories :: "string list" where
  "handledSubcategories =
     [''SPREAD_MET'', ''ORDER_SUBMIT'', ''ORDER_RESPONSE'', ''ORDER_FILL'', ''PARALLEL_ORDER'',
      ''PAIR_LINK'', ''FAST_CHASE'', ''BALANCE'', ''ORDER_STATE'', ''ORDER_CANCEL'',
      ''ORDER_TIMEOUT'']"

definition unhandled :: "event \<Rightarrow> bool" where
  "unhandled e = (case subcategory e of None \<Rightarrow> True | Some s \<Rightarrow> s \<notin> set handledSubcategories)"

text \<open>
  The classification of a response that carries the order-id \<open>oid\<close>: accepted by the
  message, or by the status field when the order is registered; otherwise rejected by the
  message. The GTX mark: \<^verbatim>\<open>GTX\<close> in a string error field or in the message.
\<close>

definition accepts :: "orderMap \<Rightarrow> event \<Rightarrow> jsval \<Rightarrow> bool" where
  "accepts om e oid =
     (msgIncludes e ''Order accepted''
      \<or> om oid \<noteq> None \<and> (data e ''status'' = Some (Str ''accepted'')
                          \<or> data e ''status'' = Some (Str ''NEW'')))"

definition rejects :: "orderMap \<Rightarrow> event \<Rightarrow> jsval \<Rightarrow> bool" where
  "rejects om e oid = (\<not> accepts om e oid \<and> msgIncludes e ''Order rejected'')"

definition hasGTX :: "event \<Rightarrow> bool" where
  "hasGTX e =
     ((case data e ''error'' of Some (Str s) \<Rightarrow> str_includes s ''GTX'' | _ \<Rightarrow> False)
      \<or> msgIncludes e ''GTX'')"

definition latencySample :: "event \<Rightarrow> jsval list" where
  "latencySample e =
     (case data e ''latency_ms'' of None \<Rightarrow> [] | Some v \<Rightarrow> if truthy v then [v] else [])"

definition statusAfterResponse :: "orderMap \<Rightarrow> event \<Rightarrow> jsval \<Rightarrow> orderMap" where
  "statusAfterResponse om e oid =
     (case om oid of
        None \<Rightarrow> om
      | Some ord \<Rightarrow>
          if accepts om e oid then om(oid \<mapsto> ord\<lparr> o_status := ''accepted'' \<rparr>)
          else if rejects om e oid then om(oid \<mapsto> ord\<lparr> o_status := ''rejected'' \<rparr>)
          else om)"


definition fallbackFill :: event where
  "fallbackFill =
     audit ''ORDER_FILL'' ''USDC order filled''
       [(''order_id'', Num (Fin 8)), (''last_filled'', Num (Fin 0)), (''qty'', Num (Fin 3))]"

definition apiError :: event where
  "apiError =
     \<lparr> timestamp = 0, level = ''ERROR'', category = Some ''LIFECYCLE'', subcategory = None,
       message = Some ''API request failed'', data = Map.empty \<rparr>"

definition plainError :: event where
  "plainError =
     \<lparr> timestamp = 0, level = ''ERROR'', category = None, subcategory = None,
       message = Some ''Request timeout'', data = Map.empty \<rparr>"

definition rejectedNoId :: event where
  "rejectedNoId =
     audit ''ORDER_RESPONSE'' ''Order rejected''
       [(''symbol'', Str ''ETHUSDT''), (''error'', Str ''GTX order would match'')]"

definition statusOnly :: event where
  "statusOnly =
     audit ''ORDER_RESPONSE'' ''Order response''
       [(''order_id'', Num (Fin 5)), (''symbol'', Str ''ETHUSDT''), (''status'', Str ''accepted'')]"

definition gtxResponse :: event where
  "gtxResponse =
     audit ''ORDER_RESPONSE'' ''Order rejected''
       [(''order_id'', Num (Fin 5)), (''symbol'', Str ''ETHUSDT''),
        (''error'', Str ''GTX order would match''), (''latency_ms'', Num (Fin 12))]"

definition gtxState :: event where
  "gtxState =
     audit ''ORDER_STATE'' ''Order expired (GTX rejected)'' [(''order_id'', Num (Fin 5))]"

text \<open>
  The events of the order-pair scenario: an \<^verbatim>\<open>ORDER_SUBMIT\<close> that registers an order with
  its symbol and pair-id, a \<^verbatim>\<open>PAIR_LINK\<close> for a pair-id, an \<^verbatim>\<open>ORDER_FILL\<close> of an order.
\<close>

definition bothFilled :: "pair \<Rightarrow> bool" where
  "bothFilled p = (usdtFilled p \<and> usdcFilled p)"

definition submitOf :: "jsval \<Rightarrow> string \<Rightarrow> jsval \<Rightarrow> event \<Rightarrow> bool" where
  "submitOf oid sy pid e =
     (processed ''ORDER_SUBMIT'' e \<and> data e ''order_id'' = Some oid
      \<and> data e ''symbol'' = Some (Str sy) \<and> data e ''pair_id'' = Some pid)"

definition linkOf :: "jsval \<Rightarrow> event \<Rightarrow> bool" where
  "linkOf pid e = (processed ''PAIR_LINK'' e \<and> data e ''pair_id'' = Some pid)"

definition fillOf :: "jsval \<Rightarrow> string \<Rightarrow> event \<Rightarrow> bool" where
  "fillOf oid sy e =
     (processed ''ORDER_FILL'' e \<and> data e ''order_id'' = Some oid
      \<and> data e ''symbol'' = Some (Str sy))"

definition pairSubmitT :: event where
  "pairSubmitT =
     audit ''ORDER_SUBMIT'' ''Submitting order''
       [(''order_id'', Num (Fin 101)), (''symbol'', Str ''ETHUSDT''), (''pair_id'', Str ''P1'')]"

definition pairSubmitC :: event where
  "pairSubmitC =
     audit ''ORDER_SUBMIT'' ''Submitting order''
       [(''order_id'', Num (Fin 102)), (''symbol'', Str ''ETHUSDC''), (''pair_id'', Str ''P1'')]"

definition pairLink :: event where
  "pairLink =
     audit ''PAIR_LINK'' ''Orders linked''
       [(''pair_id'', Str ''P1''), (''usdt_order'', Num (Fin 101)),
        (''usdc_order'', Num (Fin 102))]"

definition pairFillT :: event where
  "pairFillT =
     audit ''ORDER_FILL'' ''USDT order filled''
       [(''order_id'', Num (Fin 101)), (''symbol'', Str ''ETHUSDT''), (''filled'', Num (Fin 1))]"

definition pairFillC :: event where
  "pairFillC =
     audit ''ORDER_FILL'' ''USDC order filled''
       [(''order_id'', Num (Fin 102)), (''symbol'', Str ''ETHUSDC''), (''filled'', Num (Fin 1))]"

text \<open>
  The same orders, submitted without pair-id: the \<^verbatim>\<open>PAIR_LINK\<close> names the pair and its
  two orders, and the fills carry the pair-id in their own payload.
\<close>

definition bareSubmitT :: event where
  "bareSubmitT =
     audit ''ORDER_SUBMIT'' ''Submitting order''
       [(''order_id'', Num (Fin 101)), (''symbol'', Str ''ETHUSDT'')]"

definition bareSubmitC :: event where
  "bareSubmitC =
     audit ''ORDER_SUBMIT'' ''Submitting order''
       [(''order_id'', Num (Fin 102)), (''symbol'', Str ''ETHUSDC'')]"

definition linkedFillT :: event where
  "linkedFillT =
     audit ''ORDER_FILL'' ''USDT order filled''
       [(''order_id'', Num (Fin 101)), (''symbol'', Str ''ETHUSDT''), (''filled'', Num (Fin 1)),
        (''pair_id'', Str ''P1'')]"

definition linkedFillC :: event where
  "linkedFillC =
     audit ''ORDER_FILL'' ''USDC order filled''
       [(''order_id'', Num (Fin 102)), (''symbol'', Str ''ETHUSDC''), (''filled'', Num (Fin 1)),
        (''pair_id'', Str ''P1'')]"

definition linkOnlySession :: session where
  "linkOnlySession =
     \<lparr> events = [bareSubmitT, bareSubmitC, pairLink, linkedFillT, linkedFillC], duration = 0 \<rparr>"

text \<open>
  The statistics of every session of a list, and the sum of two optional counts: the
  count of a fallback reason in the merge of two mappings.
\<close>

fun allSessionStats :: "host \<Rightarrow> session list \<Rightarrow> error + SessionStats list" where
  "allSessionStats J [] = Inr []"
| "allSessionStats J (sess # sessions) =
     (case calculateSessionStats J sess of
        Inl err \<Rightarrow> Inl err
      | Inr st \<Rightarrow>
          (case allSessionStats J sessions of
             Inl err \<Rightarrow> Inl err
           | Inr sts \<Rightarrow> Inr (st # sts)))"

definition mergeCount :: "nat option \<Rightarrow> nat option \<Rightarrow> nat option" where
  "mergeCount x y =
     (case y of
        None \<Rightarrow> x
      | Some c \<Rightarrow> Some ((case x of None \<Rightarrow> 0 | Some a \<Rightarrow> a) + c))"

text \<open>
  The doubles that the literals \<^verbatim>\<open>0.1\<close>, \<^verbatim>\<open>0.2\<close>, \<^verbatim>\<open>0.3\<close>, \<^verbatim>\<open>0.30000000000000004\<close>,
  \<^verbatim>\<open>0.6\<close> and \<^verbatim>\<open>0.6000000000000001\<close> denote, and a session with one fill of a given
  quantity.
\<close>

definition dbl_0_1 :: jsnum where "dbl_0_1 = Fin (3602879701896397 / 36028797018963968)"

definition dbl_0_2 :: jsnum where "dbl_0_2 = Fin (3602879701896397 / 18014398509481984)"

definition dbl_0_3 :: jsnum where "dbl_0_3 = Fin (5404319552844595 / 18014398509481984)"

definition dbl_0_30000000000000004 :: jsnum where
  "dbl_0_30000000000000004 = Fin (1351079888211149 / 4503599627370496)"

definition dbl_0_6 :: jsnum where "dbl_0_6 = Fin (5404319552844595 / 9007199254740992)"

definition dbl_0_6000000000000001 :: jsnum where
  "dbl_0_6000000000000001 = Fin (1351079888211149 / 2251799813685248)"

definition oneFill :: "jsnum \<Rightarrow> session" where
  "oneFill q =
     \<lparr> events = [audit ''ORDER_FILL'' ''USDT order filled''
                   [(''order_id'', Num (Fin 1)), (''symbol'', Str ''ETHUSDT''),
                    (''last_filled'', Num q)]],
       duration = 1000 \<rparr>"

text \<open>
  Order detail extraction. A pending submission matches a response when their symbols are
  strictly equal; a response with an order-id is the only event that makes a row of
  \<^verbatim>\<open>extractOrderDetails\<close>.
\<close>

definition matchesSymbol :: "event \<Rightarrow> pendingSubmit \<Rightarrow> bool" where
  "matchesSymbol e s = strictEq (p_symbol s) (data e ''symbol'')"

definition idResponse :: "event \<Rightarrow> bool" where
  "idResponse e = (subcategory e = Some ''ORDER_RESPONSE'' \<and> truthyO (data e ''order_id''))"

text \<open>A fill row: a row with the status \<^verbatim>\<open>partial\<close> or \<^verbatim>\<open>filled\<close>.\<close>

definition isFillRow :: "OrderDetail \<Rightarrow> bool" where
  "isFillRow r = (status r = ''partial'' \<or> status r = ''filled'')"

text \<open>
  The order-ids of the responses of an event list, and the sessions in which no response
  for an order-id comes after another response or a fill of the same order-id.
\<close>

definition laterResponseIds :: "event list \<Rightarrow> jsval option list" where
  "laterResponseIds es = map (\<lambda>e. data e ''order_id'') (filter idResponse es)"

fun orderly :: "event list \<Rightarrow> bool" where
  "orderly [] = True"
| "orderly (e # es) =
     ((idResponse e \<or> subcategory e = Some ''ORDER_FILL''
         \<longrightarrow> data e ''order_id'' \<notin> set (laterResponseIds es))
      \<and> orderly es)"

text \<open>
  The invariant of the rows of a session during the pass, \<open>es\<close> being the events still to
  come: an accepted row has an order-id; no row has the order-id of a response to come;
  an order-id has at most one accepted row; no order-id has a fill row and an accepted row.
\<close>

definition rowsInv :: "OrderDetail list \<Rightarrow> event list \<Rightarrow> bool" where
  "rowsInv rows es =
     ((\<forall>r \<in> set rows. status r = ''accepted'' \<longrightarrow> truthyO (orderId r))
      \<and> (\<forall>r \<in> set rows. orderId r \<notin> set (laterResponseIds es))
      \<and> (\<forall>oid. length (filter (acceptedRowOf oid) rows) \<le> 1)
      \<and> (\<forall>f \<in> set rows. \<forall>r \<in> set rows.
            isFillRow f \<and> orderId r = orderId f \<longrightarrow> status r \<noteq> ''accepted''))"

text \<open>Events of the closed examples, with their timestamps.\<close>

definition submitAt :: "int \<Rightarrow> string \<Rightarrow> event" where
  "submitAt t sy =
     (audit ''ORDER_SUBMIT'' ''Submitting order''
        [(''symbol'', Str sy), (''side'', Str ''BUY''), (''qty'', Num (Fin 1)),
         (''price'', Num (Fin 2000))])\<lparr> timestamp := t \<rparr>"

definition acceptedAt :: "int \<Rightarrow> jsval \<Rightarrow> string \<Rightarrow> event" where
  "acceptedAt t oid sy =
     (audit ''ORDER_RESPONSE'' ''Order accepted''
        [(''order_id'', oid), (''symbol'', Str sy)])\<lparr> timestamp := t \<rparr>"

definition acceptedNoIdAt :: "int \<Rightarrow> string \<Rightarrow> event" where
  "acceptedNoIdAt t sy =
     (audit ''ORDER_RESPONSE'' ''Order accepted'' [(''symbol'', Str sy)])\<lparr> timestamp := t \<rparr>"

definition fillAt :: "int \<Rightarrow> jsval \<Rightarrow> string \<Rightarrow> event" where
  "fillAt t oid msg =
     (audit ''ORDER_FILL'' msg
        [(''order_id'', oid), (''last_filled'', Num (Fin 1))])\<lparr> timestamp := t \<rparr>"

definition noIdSession :: session where
  "noIdSession =
     \<lparr> events = [submitAt 1 ''ETHUSDT'', acceptedNoIdAt 2 ''ETHUSDT'',
                 acceptedAt 3 (Num (Fin 9)) ''ETHUSDT''],
       duration = 10 \<rparr>"

definition queue3 :: "pendingSubmit list" where
  "queue3 = [newPending (submitAt 1 ''ETHUSDC''), newPending (submitAt 2 ''ETHUSDT''),
             newPending (submitAt 3 ''ETHUSDT'')]"

definition dupAcceptedSession :: session where
  "dupAcceptedSession =
     \<lparr> events = [acceptedAt 1 (Num (Fin 5)) ''ETHUSDT'', acceptedAt 2 (Num (Fin 5)) ''ETHUSDT'',
                 fillAt 3 (Num (Fin 5)) ''USDT order filled''],
       duration = 10 \<rparr>"

definition lateResponseSession :: session where
  "lateResponseSession =
     \<lparr> events = [fillAt 1 (Num (Fin 5)) ''USDT order filled'',
                 acceptedAt 2 (Num (Fin 5)) ''ETHUSDT''],
       duration = 10 \<rparr>"

definition goodSession :: session where
  "goodSession =
     \<lparr> events = [submitAt 1 ''ETHUSDT'', acceptedAt 2 (Num (Fin 5)) ''ETHUSDT'',
                 fillAt 3 (Num (Fin 5)) ''Partial fill'',
                 fillAt 4 (Num (Fin 5)) ''USDT order filled''],
       duration = 10 \<rparr>"

subsection \<open>Unmatched fills, in the words of the specification\<close>





definition numericErrorResponse :: event where
  "numericErrorResponse =
     audit ''ORDER_RESPONSE'' ''Order rejected (GTX)''
       [(''order_id'', Num (Fin 5)), (''symbol'', Str ''ETHUSDT''),
        (''error'', Num (Fin (- 5022)))]"

subsection \<open>Fills in the cross-session extraction\<close>

text \<open>
  The row after a fill: the fill time and the status are set, the filled quantity and the
  accumulated quantity are set when the event has the field, every other field is kept.
\<close>

definition filledDetail :: "host \<Rightarrow> event \<Rightarrow> OrderDetail \<Rightarrow> OrderDetail" where
  "filledDetail J e r =
     r\<lparr> fillTime := Some (timestamp e),
        filledQty :=
          (if data e ''last_filled'' = None then filledQty r
           else Some (if nonzeroNumber (parseFloat J (data e ''last_filled''))
                      then parseFloat J (data e ''last_filled'') else Fin 0)),
        accumulated :=
          (if data e ''accumulated'' = None then accumulated r
           else Some (if nonzeroNumber (parseFloat J (data e ''accumulated''))
                      then parseFloat J (data e ''accumulated'') else Fin 0)),
        status := (if msgIncludes e ''Partial fill'' then ''partial'' else ''filled'') \<rparr>"

text \<open>
  Position \<open>i\<close> holds the last row of order-id \<open>oid\<close>, and the relation that the pass
  keeps between \<^verbatim>\<open>orders\<close> and \<^verbatim>\<open>orderMap\<close>: the table maps an order-id to the
  position of the last row of that order-id.
\<close>

definition lastRowOf :: "OrderDetail list \<Rightarrow> jsval \<Rightarrow> nat \<Rightarrow> bool" where
  "lastRowOf orders oid i =
     (i < length orders \<and> orderId (orders ! i) = Some oid
      \<and> (\<forall>j < length orders. i < j \<longrightarrow> orderId (orders ! j) \<noteq> Some oid))"

definition detailsInv :: "OrderDetail list \<Rightarrow> (jsval \<Rightarrow> nat option) \<Rightarrow> bool" where
  "detailsInv orders om = (\<forall>oid i. om oid = Some i \<longrightarrow> lastRowOf orders oid i)"

section \<open>Evaluation and frame lemmas\<close>

lemmas reducer_defs =
  processEvent_def onOrderSubmit_def onOrderResponse_def onOrderFill_def onPairEvent_def
  processFastChaseEvent_def onOther_def fillCounters_def fillCorrelate_def markLeg_def
  fillPrice_def fillBucket_def fillSymbol_def fillQty_def countRejection_def gtxMarked_def
  msgIncludes_def ensurePair_def newPair_def pairMap_has_def bumpReason_def
  truthyO_def truthyS_def andIncludes_def numOr_def parseFloat_def jsOr_def strictEq_def

lemmas example_defs = exampleHost_def audit_def processed_def

subsection \<open>The three fill counters\<close>

lemma fillBucket_fills:
  assumes "fillBucket sy q st = Inr st'"
  shows "fills_total st' = fills_total st \<and> fills_partial st' = fills_partial st
       \<and> fills_full st' = fills_full st"
  using assms by (auto simp: fillBucket_def split: sum.splits bool.splits)

lemma fillCounters_fills:
  assumes "fillCounters J e st = Inr st'"
  shows "fills_total st' = fills_total st + 1
       \<and> (fills_partial st' = fills_partial st + 1 \<and> fills_full st' = fills_full st
          \<or> fills_partial st' = fills_partial st \<and> fills_full st' = fills_full st + 1)"
  using assms
  by (auto simp: fillCounters_def fillPrice_def Let_def split: sum.splits if_splits
      dest!: fillBucket_fills)

lemma countRejection_fills:
  assumes "countRejection e st = Inr st'"
  shows "fills_total st' = fills_total st \<and> fills_partial st' = fills_partial st
       \<and> fills_full st' = fills_full st"
  using assms by (auto simp: countRejection_def Let_def split: sum.splits if_splits)

lemma onOrderResponse_fills:
  assumes "onOrderResponse e (st, om, pm) = Inr (st', om', pm')"
  shows "fills_total st' = fills_total st \<and> fills_partial st' = fills_partial st
       \<and> fills_full st' = fills_full st"
  using assms
  by (auto simp: onOrderResponse_def Let_def split: sum.splits if_splits option.splits
      dest!: countRejection_fills)

lemma onOrderSubmit_fills:
  assumes "onOrderSubmit e (st, om, pm) = (st', om', pm')"
  shows "fills_total st' = fills_total st \<and> fills_partial st' = fills_partial st
       \<and> fills_full st' = fills_full st"
  using assms by (auto simp: onOrderSubmit_def Let_def split: if_splits option.splits)

lemma onPairEvent_fills:
  assumes "onPairEvent e (st, om, pm) = (st', om', pm')"
  shows "fills_total st' = fills_total st \<and> fills_partial st' = fills_partial st
       \<and> fills_full st' = fills_full st"
  using assms by (auto simp: onPairEvent_def split: if_splits)

lemma processFastChaseEvent_fills:
  "fills_total (processFastChaseEvent J e st) = fills_total st
   \<and> fills_partial (processFastChaseEvent J e st) = fills_partial st
   \<and> fills_full (processFastChaseEvent J e st) = fills_full st"
  by (simp add: processFastChaseEvent_def Let_def split: option.splits)

lemma onOther_fills:
  "fills_total (onOther e st) = fills_total st
   \<and> fills_partial (onOther e st) = fills_partial st
   \<and> fills_full (onOther e st) = fills_full st"
  by (simp add: onOther_def)

lemma processEvent_other_fills:
  assumes "processEvent J e (st, om, pm) = Inr (st', om', pm')"
    and "\<not> processed ''ORDER_FILL'' e"
  shows "fills_total st' = fills_total st \<and> fills_partial st' = fills_partial st
       \<and> fills_full st' = fills_full st"
  using assms
  by (auto simp: processEvent_def processed_def processFastChaseEvent_fills onOther_fills
      split: if_splits dest: onOrderResponse_fills onOrderSubmit_fills onPairEvent_fills)

lemma processEvent_fill_fills:
  assumes "processEvent J e (st, om, pm) = Inr (st', om', pm')"
    and "processed ''ORDER_FILL'' e"
  shows "fills_total st' = fills_total st + 1
       \<and> (fills_partial st' = fills_partial st + 1 \<and> fills_full st' = fills_full st
          \<or> fills_partial st' = fills_partial st \<and> fills_full st' = fills_full st + 1)"
proof -
  from assms have "onOrderFill J e (st, om, pm) = Inr (st', om', pm')"
    by (simp add: processEvent_def processed_def)
  then have "fillCounters J e st = Inr st'"
    by (auto simp: onOrderFill_def split: sum.splits)
  then show ?thesis by (rule fillCounters_fills)
qed

lemma processEvents_fills:
  assumes "processEvents J es (st, om, pm) = Inr (st', om', pm')"
  shows "fills_total st' = fills_total st + length (filter (processed ''ORDER_FILL'') es)
       \<and> fills_partial st' + fills_full st' + fills_total st
           = fills_partial st + fills_full st + fills_total st'"
  using assms
proof (induction es arbitrary: st om pm)
  case Nil
  then show ?case by simp
next
  case (Cons e es)
  from Cons.prems obtain st1 om1 pm1
    where step: "processEvent J e (st, om, pm) = Inr (st1, om1, pm1)"
      and rest: "processEvents J es (st1, om1, pm1) = Inr (st', om', pm')"
    by (auto split: sum.splits)
  note ih = Cons.IH [OF rest]
  show ?case
  proof (cases "processed ''ORDER_FILL'' e")
    case True
    from processEvent_fill_fills [OF step True] ih True show ?thesis by auto
  next
    case False
    from processEvent_other_fills [OF step False] ih False show ?thesis by auto
  qed
qed

lemma countPairs_fills:
  "fills_total (countPairs pm st) = fills_total st
   \<and> fills_partial (countPairs pm st) = fills_partial st
   \<and> fills_full (countPairs pm st) = fills_full st"
  by (induction pm st rule: countPairs.induct) (simp_all add: Let_def)

subsection \<open>Fills\<close>

lemma truthyNum_iff: "truthyNum n = nonzeroNumber n"
  by (cases n) (simp_all add: nonzeroNumber_def)

lemma stringish_fillSymbol:
  assumes "stringish (data e ''symbol'')"
  shows "\<exists>s. fillSymbol e = Str s"
  using assms
  by (auto simp: stringish_def fillSymbol_def truthyO_def Let_def split: option.splits jsval.splits)

lemma fillSymbol_TypeError:
  assumes "\<not> stringish (data e ''symbol'')"
  shows "valIncludes (fillSymbol e) t = Inl TypeError"
  using assms
  by (auto simp: stringish_def fillSymbol_def truthyO_def Let_def split: option.splits jsval.splits)



lemma fillBucket_Str:
  "fillBucket (Str s) q st =
     Inr (if str_includes s ''USDT'' then st\<lparr> fills_usdtQty := fadd (fills_usdtQty st) q \<rparr>
          else if str_includes s ''USDC'' then st\<lparr> fills_usdcQty := fadd (fills_usdcQty st) q \<rparr>
          else st)"
  by (simp add: fillBucket_def)

lemma fillPrice_eq:
  "fillPrice J e st = st\<lparr> fills_prices := fills_prices st @ priceSample J e \<rparr>"
  by (simp add: fillPrice_def priceSample_def)

lemma fillCorrelate_unmatched:
  assumes "unmatched om e"
  shows "fillCorrelate e om pm = Inr (om, pm)"
  using assms by (auto simp: unmatched_def fillCorrelate_def split: option.splits)

lemma fillCounters_Str:
  assumes "fillSymbol e = Str s"
  shows "fillCounters J e st =
     Inr ((if str_includes s ''USDT''
           then (\<lambda>x. x\<lparr> fills_usdtQty := fadd (fills_usdtQty st) (fillQty J e) \<rparr>)
           else if str_includes s ''USDC''
           then (\<lambda>x. x\<lparr> fills_usdcQty := fadd (fills_usdcQty st) (fillQty J e) \<rparr>)
           else (\<lambda>x. x))
          ((if msgIncludes e ''Partial fill'' \<or> data e ''fill_type'' = Some (Str ''partial'')
            then (\<lambda>x. x\<lparr> fills_partial := fills_partial st + 1 \<rparr>)
            else (\<lambda>x. x\<lparr> fills_full := fills_full st + 1 \<rparr>))
           (st\<lparr> fills_total := fills_total st + 1,
                fills_totalQty := fadd (fills_totalQty st) (fillQty J e),
                fills_prices := fills_prices st @ priceSample J e \<rparr>)))"
  using assms by (simp add: fillCounters_def fillBucket_Str fillPrice_eq Let_def)

subsection \<open>Events of no handled subcategory\<close>

lemma unhandled_neq:
  assumes "unhandled e" and "s \<in> set handledSubcategories"
  shows "subcategory e \<noteq> Some s"
  using assms by (auto simp: unhandled_def split: option.splits)

lemma processEvent_unhandled:
  assumes "unhandled e" and "truthyS (category e)"
  shows "processEvent J e (st, om, pm) = Inr (onOther e st, om, pm)"
proof -
  have "subcategory e \<noteq> Some ''SPREAD_MET''" "subcategory e \<noteq> Some ''ORDER_SUBMIT''"
    "subcategory e \<noteq> Some ''ORDER_RESPONSE''" "subcategory e \<noteq> Some ''ORDER_FILL''"
    "subcategory e \<noteq> Some ''PARALLEL_ORDER''" "subcategory e \<noteq> Some ''PAIR_LINK''"
    "subcategory e \<noteq> Some ''FAST_CHASE''" "subcategory e \<noteq> Some ''BALANCE''"
    "subcategory e \<noteq> Some ''ORDER_STATE''" "subcategory e \<noteq> Some ''ORDER_CANCEL''"
    "subcategory e \<noteq> Some ''ORDER_TIMEOUT''"
    by (rule unhandled_neq [OF assms(1)], simp add: handledSubcategories_def)+
  with assms(2) show ?thesis
    by (simp add: processEvent_def)
qed

subsection \<open>Responses\<close>

lemma gtxMarked_stringish:
  assumes "stringish (data e ''error'')"
  shows "gtxMarked e = Inr (hasGTX e)"
  using assms
  by (auto simp: gtxMarked_def hasGTX_def stringish_def andIncludes_def
      split: option.splits jsval.splits bool.splits)

lemma countRejection_stringish:
  assumes "stringish (data e ''error'')"
  shows "countRejection e st =
           Inr (if hasGTX e
                then st\<lparr> orders_rejected := orders_rejected st + 1,
                        errors_gtxRejections := errors_gtxRejections st + 1 \<rparr>
                else st\<lparr> orders_rejected := orders_rejected st + 1 \<rparr>)"
  by (simp add: countRejection_def gtxMarked_stringish [OF assms] Let_def)

lemma latency_prefix:
  "(if truthyO (data e ''latency_ms'')
    then st\<lparr> orders_latencies := orders_latencies st @ [the (data e ''latency_ms'')] \<rparr>
    else st)
   = st\<lparr> orders_latencies := orders_latencies st @ latencySample e \<rparr>"
  by (auto simp: latencySample_def truthyO_def split: option.splits)

lemma onOrderResponse_eq:
  assumes "data e ''order_id'' = Some oid" and "truthy oid"
    and "rejects om e oid \<longrightarrow> stringish (data e ''error'')"
  shows "onOrderResponse e (st, om, pm) =
     Inr (st\<lparr> orders_latencies := orders_latencies st @ latencySample e,
              orders_accepted := orders_accepted st + (if accepts om e oid then 1 else 0),
              orders_rejected := orders_rejected st + (if rejects om e oid then 1 else 0),
              errors_gtxRejections := errors_gtxRejections st
                 + (if rejects om e oid \<and> hasGTX e then 1 else 0) \<rparr>,
          statusAfterResponse om e oid, pm)"
proof (cases "accepts om e oid")
  case True
  then have nr: "\<not> rejects om e oid" by (simp add: rejects_def)
  from True nr assms(1,2) show ?thesis
    unfolding onOrderResponse_def
    by (cases "om oid")
      (simp_all add: latency_prefix Let_def accepts_def statusAfterResponse_def)
next
  case na: False
  show ?thesis
  proof (cases "rejects om e oid")
    case True
    with assms(3) have "stringish (data e ''error'')" by simp
    note cr = countRejection_stringish [OF this]
    from True have mr: "msgIncludes e ''Order rejected''" by (simp add: rejects_def)
    from na True mr assms(1,2) show ?thesis
      unfolding onOrderResponse_def
      by (cases "om oid")
        (simp_all add: latency_prefix cr Let_def accepts_def statusAfterResponse_def)
  next
    case False
    with na have mr: "\<not> msgIncludes e ''Order rejected''" by (simp add: rejects_def)
    from na False mr assms(1,2) show ?thesis
      unfolding onOrderResponse_def
      by (cases "om oid")
        (simp_all add: latency_prefix Let_def accepts_def statusAfterResponse_def)
  qed
qed

lemma onOrderResponse_no_id:
  assumes "\<not> truthyO (data e ''order_id'')"
  shows "onOrderResponse e (st, om, pm) =
     Inr (st\<lparr> orders_latencies := orders_latencies st @ latencySample e \<rparr>, om, pm)"
proof (cases "data e ''order_id''")
  case None
  then show ?thesis
    unfolding onOrderResponse_def by (simp add: latency_prefix Let_def)
next
  case (Some a)
  with assms have "\<not> truthy a" by (simp add: truthyO_def)
  with Some show ?thesis
    unfolding onOrderResponse_def by (simp add: latency_prefix Let_def)
qed

subsection \<open>The pair table\<close>

lemma countPairs_counts:
  "orderPairs_attempted (countPairs pm st) = orderPairs_attempted st + length pm
   \<and> orderPairs_succeeded (countPairs pm st)
       = orderPairs_succeeded st + length (filter (\<lambda>kp. bothFilled (snd kp)) pm)"
  by (induction pm st rule: countPairs.induct) (simp_all add: Let_def bothFilled_def)

lemma distinct_length_dom:
  assumes "distinct (map fst pm)"
  shows "length pm = card (dom (map_of pm))"
proof -
  have "card (dom (map_of pm)) = card (set (map fst pm))" by (simp add: dom_map_of_conv_image_fst)
  also have "\<dots> = length (map fst pm)" using assms by (rule distinct_card)
  finally show ?thesis by simp
qed

lemma distinct_filter_card:
  assumes "distinct (map fst pm)"
  shows "length (filter (\<lambda>kp. P (snd kp)) pm) = card {k. \<exists>p. map_of pm k = Some p \<and> P p}"
proof -
  let ?f = "filter (\<lambda>kp. P (snd kp)) pm"
  have d: "distinct (map fst ?f)" using assms by (rule distinct_map_filter)
  have "{k. \<exists>p. map_of pm k = Some p \<and> P p} = set (map fst ?f)"
    using assms by (auto simp: image_iff intro: rev_bexI) 
  then have "card {k. \<exists>p. map_of pm k = Some p \<and> P p} = card (set (map fst ?f))" by simp
  also have "\<dots> = length (map fst ?f)" using d by (rule distinct_card)
  finally show ?thesis by simp
qed

lemma ensurePair_distinct:
  "distinct (map fst pm) \<Longrightarrow> distinct (map fst (ensurePair pm k))"
  by (simp add: ensurePair_def distinct_update)

lemma markLeg_distinct:
  assumes "markLeg ord pid pm = Inr pm'" and "distinct (map fst pm)"
  shows "distinct (map fst pm')"
  using assms
  by (auto simp: markLeg_def Let_def distinct_update ensurePair_distinct
      split: sum.splits bool.splits)

lemma fillCorrelate_distinct:
  assumes "fillCorrelate e om pm = Inr (om', pm')" and "distinct (map fst pm)"
  shows "distinct (map fst pm')"
  using assms
  by (auto simp: fillCorrelate_def Let_def split: option.splits if_splits sum.splits
      dest: markLeg_distinct)

lemma fillCounters_orderPairs:
  assumes "fillCounters J e st = Inr st'"
  shows "orderPairs_attempted st' = orderPairs_attempted st
       \<and> orderPairs_succeeded st' = orderPairs_succeeded st"
proof -
  from assms obtain s where "fillSymbol e = Str s"
    by (cases "fillSymbol e") (auto simp: fillCounters_def fillBucket_def Let_def)
  from assms fillCounters_Str [OF this, of J st] show ?thesis by auto
qed

lemma countRejection_orderPairs:
  assumes "countRejection e st = Inr st'"
  shows "orderPairs_attempted st' = orderPairs_attempted st
       \<and> orderPairs_succeeded st' = orderPairs_succeeded st"
  using assms by (auto simp: countRejection_def Let_def split: sum.splits if_splits)

lemma onOrderResponse_pairs:
  assumes "onOrderResponse e (st, om, pm) = Inr (st', om', pm')"
  shows "orderPairs_attempted st' = orderPairs_attempted st
       \<and> orderPairs_succeeded st' = orderPairs_succeeded st \<and> pm' = pm"
  using assms
  by (auto simp: onOrderResponse_def Let_def split: sum.splits if_splits option.splits
      dest!: countRejection_orderPairs)

lemma onOrderSubmit_pairs:
  assumes "onOrderSubmit e (st, om, pm) = (st', om', pm')"
  shows "orderPairs_attempted st' = orderPairs_attempted st
       \<and> orderPairs_succeeded st' = orderPairs_succeeded st \<and> pm' = pm"
  using assms by (auto simp: onOrderSubmit_def Let_def split: if_splits option.splits)

lemma onPairEvent_pairs:
  assumes "onPairEvent e (st, om, pm) = (st', om', pm')"
  shows "st' = st \<and> (distinct (map fst pm) \<longrightarrow> distinct (map fst pm'))"
  using assms by (auto simp: onPairEvent_def ensurePair_distinct split: if_splits)

lemma onOrderFill_pairs:
  assumes "onOrderFill J e (st, om, pm) = Inr (st', om', pm')"
  shows "orderPairs_attempted st' = orderPairs_attempted st
       \<and> orderPairs_succeeded st' = orderPairs_succeeded st
       \<and> (distinct (map fst pm) \<longrightarrow> distinct (map fst pm'))"
  using assms
  by (auto simp: onOrderFill_def split: sum.splits
      dest: fillCounters_orderPairs fillCorrelate_distinct)

lemma processFastChaseEvent_orderPairs:
  "orderPairs_attempted (processFastChaseEvent J e st) = orderPairs_attempted st
   \<and> orderPairs_succeeded (processFastChaseEvent J e st) = orderPairs_succeeded st"
  by (simp add: processFastChaseEvent_def Let_def split: option.splits)

lemma onOther_orderPairs:
  "orderPairs_attempted (onOther e st) = orderPairs_attempted st
   \<and> orderPairs_succeeded (onOther e st) = orderPairs_succeeded st"
  by (simp add: onOther_def)

lemma processEvent_pairs:
  assumes "processEvent J e (st, om, pm) = Inr (st', om', pm')"
  shows "orderPairs_attempted st' = orderPairs_attempted st
       \<and> orderPairs_succeeded st' = orderPairs_succeeded st
       \<and> (distinct (map fst pm) \<longrightarrow> distinct (map fst pm'))"
  using assms
  by (auto simp: processEvent_def processFastChaseEvent_orderPairs onOther_orderPairs
      split: if_splits
      dest: onOrderResponse_pairs onOrderSubmit_pairs onPairEvent_pairs onOrderFill_pairs)

lemma processEvents_pairs:
  assumes "processEvents J es (st, om, pm) = Inr (st', om', pm')"
  shows "orderPairs_attempted st' = orderPairs_attempted st
       \<and> orderPairs_succeeded st' = orderPairs_succeeded st
       \<and> (distinct (map fst pm) \<longrightarrow> distinct (map fst pm'))"
  using assms
proof (induction es arbitrary: st om pm)
  case Nil
  then show ?case by simp
next
  case (Cons e es)
  from Cons.prems obtain st1 om1 pm1
    where step: "processEvent J e (st, om, pm) = Inr (st1, om1, pm1)"
      and rest: "processEvents J es (st1, om1, pm1) = Inr (st', om', pm')"
    by (auto split: sum.splits)
  from processEvent_pairs [OF step] Cons.IH [OF rest] show ?case by simp
qed

lemma submit_step:
  assumes "submitOf oid sy pid e" and "truthy oid"
  shows "processEvent J e (st, om, pm) =
     Inr (st\<lparr> orders_total := orders_total st + 1 \<rparr>,
          om(oid \<mapsto> \<lparr> o_symbol = Some (Str sy), o_side = data e ''side'',
                       o_qty = data e ''qty'', o_price = data e ''price'',
                       o_status = ''pending'', o_timestamp = timestamp e,
                       o_pairId = Some pid \<rparr>),
          pm)"
  using assms
  by (simp add: submitOf_def processed_def processEvent_def onOrderSubmit_def Let_def)

lemma link_step:
  assumes "linkOf pid e" and "truthy pid"
  shows "processEvent J e (st, om, pm) = Inr (st, om, ensurePair pm pid)"
  using assms
  by (simp add: linkOf_def processed_def processEvent_def onPairEvent_def truthyO_def)

lemma andIncludes_Str: "t \<noteq> [] \<Longrightarrow> andIncludes (Some (Str s)) t = Inr (str_includes s t)"
  by (cases s) (simp_all add: andIncludes_def)

lemma markLeg_Str:
  assumes "o_symbol ord = Some (Str sy)"
  shows "markLeg ord pid pm =
     Inr (if str_includes sy ''USDT''
          then AList.update pid ((the (map_of (ensurePair pm pid) pid))\<lparr> usdtFilled := True \<rparr>)
                 (ensurePair pm pid)
          else if str_includes sy ''USDC''
          then AList.update pid ((the (map_of (ensurePair pm pid) pid))\<lparr> usdcFilled := True \<rparr>)
                 (ensurePair pm pid)
          else ensurePair pm pid)"
  by (simp add: markLeg_def assms andIncludes_Str Let_def)

lemma fillCounters_returns:
  assumes "stringish (data e ''symbol'')"
  shows "\<exists>st'. fillCounters J e st = Inr st'"
  using stringish_fillSymbol [OF assms] fillCounters_Str [of e _ J st] by auto

lemma fill_step:
  assumes "fillOf oid fsy e" and "truthy oid" and "om oid = Some ord"
    and "o_pairId ord = Some pid" and "truthy pid" and "o_symbol ord = Some (Str sy)"
    and "fillCounters J e st = Inr st'"
  shows "processEvent J e (st, om, pm) =
     Inr (st',
          om(oid \<mapsto> ord\<lparr> o_status := (if msgIncludes e ''Partial fill''
                                          then ''partial'' else ''filled'') \<rparr>),
          (if str_includes sy ''USDT''
           then AList.update pid ((the (map_of (ensurePair pm pid) pid))\<lparr> usdtFilled := True \<rparr>)
                  (ensurePair pm pid)
           else if str_includes sy ''USDC''
           then AList.update pid ((the (map_of (ensurePair pm pid) pid))\<lparr> usdcFilled := True \<rparr>)
                  (ensurePair pm pid)
           else ensurePair pm pid))"
proof -
  from assms(1) have pe: "processEvent J e (st, om, pm) = onOrderFill J e (st, om, pm)"
    by (simp add: fillOf_def processEvent_def processed_def)
  have ml: "markLeg (ord\<lparr> o_status := (if msgIncludes e ''Partial fill''
                                          then ''partial'' else ''filled'') \<rparr>) pid pm
            = Inr (if str_includes sy ''USDT''
           then AList.update pid ((the (map_of (ensurePair pm pid) pid))\<lparr> usdtFilled := True \<rparr>)
                  (ensurePair pm pid)
           else if str_includes sy ''USDC''
           then AList.update pid ((the (map_of (ensurePair pm pid) pid))\<lparr> usdcFilled := True \<rparr>)
                  (ensurePair pm pid)
           else ensurePair pm pid)"
    by (rule markLeg_Str) (simp add: assms(6))
  from assms(1) have oid: "data e ''order_id'' = Some oid" by (simp add: fillOf_def)
  have fc: "fillCorrelate e om pm =
      Inr (om(oid \<mapsto> ord\<lparr> o_status := (if msgIncludes e ''Partial fill''
                                          then ''partial'' else ''filled'') \<rparr>),
           (if str_includes sy ''USDT''
           then AList.update pid ((the (map_of (ensurePair pm pid) pid))\<lparr> usdtFilled := True \<rparr>)
                  (ensurePair pm pid)
           else if str_includes sy ''USDC''
           then AList.update pid ((the (map_of (ensurePair pm pid) pid))\<lparr> usdcFilled := True \<rparr>)
                  (ensurePair pm pid)
           else ensurePair pm pid))"
    unfolding fillCorrelate_def
    by (simp add: oid assms(2,3,4,5) truthyO_def Let_def ml del: str_includes.simps)
  show ?thesis
    unfolding pe onOrderFill_def by (simp add: assms(7) fc del: str_includes.simps)
qed

lemma pair_scenario_tables:
  assumes ids: "truthy o1" "truthy o2" "o1 \<noteq> o2" "truthy pid"
    and s1: "submitOf o1 ''ETHUSDT'' pid s1" and s2: "submitOf o2 ''ETHUSDC'' pid s2"
    and l: "linkOf pid l" and f1: "fillOf o1 ''ETHUSDT'' f1" and f2: "fillOf o2 ''ETHUSDC'' f2"
  shows "(\<exists>st om. processEvents J [s1, s2, l, f1] (st0, Map.empty, [])
                     = Inr (st, om, [(pid, \<lparr> usdtFilled = True, usdcFilled = False \<rparr>)]))
       \<and> (\<exists>st om. processEvents J [s1, s2, l, f1, f2] (st0, Map.empty, [])
                     = Inr (st, om, [(pid, \<lparr> usdtFilled = True, usdcFilled = True \<rparr>)]))"
proof -
  let ?ord1 = "\<lparr> o_symbol = Some (Str ''ETHUSDT''), o_side = data s1 ''side'',
                 o_qty = data s1 ''qty'', o_price = data s1 ''price'',
                 o_status = ''pending'', o_timestamp = timestamp s1, o_pairId = Some pid \<rparr>"
  let ?ord2 = "\<lparr> o_symbol = Some (Str ''ETHUSDC''), o_side = data s2 ''side'',
                 o_qty = data s2 ''qty'', o_price = data s2 ''price'',
                 o_status = ''pending'', o_timestamp = timestamp s2, o_pairId = Some pid \<rparr>"
  let ?st2 = "st0\<lparr> orders_total := orders_total st0 + 1 \<rparr>\<lparr> orders_total :=
                orders_total (st0\<lparr> orders_total := orders_total st0 + 1 \<rparr>) + 1 \<rparr>"
  let ?om2 = "(Map.empty(o1 \<mapsto> ?ord1))(o2 \<mapsto> ?ord2)"
  let ?st1x = "if msgIncludes f1 ''Partial fill'' then ''partial'' else ''filled''"
  let ?om3 = "?om2(o1 \<mapsto> ?ord1\<lparr> o_status := ?st1x \<rparr>)"
  from f1 have "stringish (data f1 ''symbol'')" by (simp add: fillOf_def stringish_def)
  then obtain st3 where c1: "fillCounters J f1 ?st2 = Inr st3"
    using fillCounters_returns by blast
  from f2 have "stringish (data f2 ''symbol'')" by (simp add: fillOf_def stringish_def)
  then obtain st4 where c2: "fillCounters J f2 st3 = Inr st4"
    using fillCounters_returns by blast
  have e1: "processEvent J s1 (st0, Map.empty, []) =
              Inr (st0\<lparr> orders_total := orders_total st0 + 1 \<rparr>, Map.empty(o1 \<mapsto> ?ord1), [])"
    by (rule submit_step [OF s1 ids(1)])
  have e2: "processEvent J s2 (st0\<lparr> orders_total := orders_total st0 + 1 \<rparr>,
              Map.empty(o1 \<mapsto> ?ord1), []) = Inr (?st2, ?om2, [])"
    by (rule submit_step [OF s2 ids(2)])
  have e3: "processEvent J l (?st2, ?om2, []) = Inr (?st2, ?om2, [(pid, newPair)])"
    using link_step [OF l ids(4), of J ?st2 ?om2 "[]"]
    by (simp add: ensurePair_def pairMap_has_def)
  have m1: "?om2 o1 = Some ?ord1" using ids(3) by simp
  have p1: "o_pairId ?ord1 = Some pid" and y1: "o_symbol ?ord1 = Some (Str ''ETHUSDT'')"
    by simp_all
  from fill_step [where om = ?om2 and pm = "[(pid, newPair)]", OF f1 ids(1) m1 p1 ids(4) y1 c1]
  have e4: "processEvent J f1 (?st2, ?om2, [(pid, newPair)]) =
              Inr (st3, ?om3, [(pid, \<lparr> usdtFilled = True, usdcFilled = False \<rparr>)])"
    by (simp add: ensurePair_def pairMap_has_def newPair_def)
  have m2: "?om3 o2 = Some ?ord2" using ids(3) by simp
  have p2: "o_pairId ?ord2 = Some pid" and y2: "o_symbol ?ord2 = Some (Str ''ETHUSDC'')"
    by simp_all
  from fill_step [where om = ?om3
                    and pm = "[(pid, \<lparr> usdtFilled = True, usdcFilled = False \<rparr>)]",
                  OF f2 ids(2) m2 p2 ids(4) y2 c2]
  have e5: "processEvent J f2 (st3, ?om3, [(pid, \<lparr> usdtFilled = True, usdcFilled = False \<rparr>)]) =
              Inr (st4, ?om3(o2 \<mapsto> ?ord2\<lparr> o_status :=
                     (if msgIncludes f2 ''Partial fill'' then ''partial'' else ''filled'') \<rparr>),
                   [(pid, \<lparr> usdtFilled = True, usdcFilled = True \<rparr>)])"
    by (simp add: ensurePair_def pairMap_has_def)
  have four: "processEvents J [s1, s2, l, f1] (st0, Map.empty, [])
                = Inr (st3, ?om3, [(pid, \<lparr> usdtFilled = True, usdcFilled = False \<rparr>)])"
    by (simp only: processEvents.simps e1 e2 e3 e4 sum.case)
  have five: "processEvents J [s1, s2, l, f1, f2] (st0, Map.empty, [])
                = Inr (st4, ?om3(o2 \<mapsto> ?ord2\<lparr> o_status :=
                     (if msgIncludes f2 ''Partial fill'' then ''partial'' else ''filled'') \<rparr>),
                   [(pid, \<lparr> usdtFilled = True, usdcFilled = True \<rparr>)])"
    by (simp only: processEvents.simps e1 e2 e3 e4 e5 sum.case)
  from four five show ?thesis by blast
qed

lemma calculateSessionStats_pairs:
  assumes "processEvents J (events sess) (newSessionStats\<lparr> runtime := duration sess \<rparr>, Map.empty, [])
             = Inr (st, om, pm)"
  shows "\<exists>stats. calculateSessionStats J sess = Inr stats
       \<and> orderPairs_attempted stats = length pm
       \<and> orderPairs_succeeded stats = length (filter (\<lambda>kp. bothFilled (snd kp)) pm)
       \<and> distinct (map fst pm)"
proof -
  from processEvents_pairs [OF assms]
  have "orderPairs_attempted st = 0" "orderPairs_succeeded st = 0" "distinct (map fst pm)"
    by (simp_all add: newSessionStats_def)
  with countPairs_counts [of pm st] assms show ?thesis
    by (simp add: calculateSessionStats_def)
qed

subsection \<open>Where the reducer raises, and where it returns\<close>

text \<open>
  The reducer raises \<^verbatim>\<open>TypeError\<close> on a fill whose symbol is a truthy number or boolean,
  and on a rejection whose error field is one. On payloads whose symbol and error fields
  are absent, falsy or strings it returns, and so does \<^verbatim>\<open>calculateSessionStats\<close>.
\<close>

lemma fill_symbol_raises:
  assumes "processed ''ORDER_FILL'' e" and "\<not> stringish (data e ''symbol'')"
  shows "processEvent J e (st, om, pm) = Inl TypeError"
proof -
  from assms(1) have pe: "processEvent J e (st, om, pm) = onOrderFill J e (st, om, pm)"
    by (simp add: processEvent_def processed_def)
  have "fillBucket (fillSymbol e) q s = Inl TypeError" for q s
    by (simp add: fillBucket_def fillSymbol_TypeError [OF assms(2)])
  then have "fillCounters J e st = Inl TypeError"
    by (simp add: fillCounters_def Let_def)
  then show ?thesis by (simp add: pe onOrderFill_def)
qed

lemma andIncludes_stringish:
  assumes "stringish v"
  shows "\<exists>b. andIncludes v t = Inr b"
  using assms
  by (auto simp: stringish_def andIncludes_def split: option.splits jsval.splits)

lemma markLeg_returns:
  assumes "stringish (o_symbol ord)"
  shows "\<exists>pm'. markLeg ord pid pm = Inr pm'"
proof -
  from andIncludes_stringish [OF assms] obtain b c
    where "andIncludes (o_symbol ord) ''USDT'' = Inr b" "andIncludes (o_symbol ord) ''USDC'' = Inr c"
    by blast
  then show ?thesis by (cases b; cases c) (simp_all add: markLeg_def Let_def)
qed

lemma fillCorrelate_returns:
  assumes "typedOrders om"
  shows "\<exists>om' pm'. fillCorrelate e om pm = Inr (om', pm') \<and> typedOrders om'"
proof (cases "unmatched om e")
  case True
  with assms fillCorrelate_unmatched [OF True] show ?thesis by simp
next
  case False
  then obtain oid ord where oid: "data e ''order_id'' = Some oid" "truthy oid" "om oid = Some ord"
    by (auto simp: unmatched_def split: option.splits)
  let ?ord = "ord\<lparr> o_status := (if msgIncludes e ''Partial fill'' then ''partial'' else ''filled'') \<rparr>"
  from assms oid(3) have s: "stringish (o_symbol ?ord)" by (simp add: typedOrders_def)
  from assms s have t: "typedOrders (om(oid \<mapsto> ?ord))" by (simp add: typedOrders_def)
  from markLeg_returns [OF s] obtain pm' where
    "markLeg ?ord (the (o_pairId ?ord)) pm = Inr pm'" by blast
  with oid t show ?thesis
    by (auto simp: fillCorrelate_def Let_def)
qed

lemma onOrderResponse_returns:
  assumes "stringish (data e ''error'')" and "typedOrders om"
  shows "\<exists>st' om'. onOrderResponse e (st, om, pm) = Inr (st', om', pm) \<and> typedOrders om'"
proof (cases "truthyO (data e ''order_id'')")
  case False
  with assms(2) onOrderResponse_no_id [OF False] show ?thesis by simp
next
  case True
  then obtain oid where oid: "data e ''order_id'' = Some oid" "truthy oid"
    by (auto simp: truthyO_def split: option.splits)
  from assms(2) have "typedOrders (statusAfterResponse om e oid)"
    by (auto simp: typedOrders_def statusAfterResponse_def split: option.splits if_splits)
  with onOrderResponse_eq [OF oid, where om = om and st = st and pm = pm] assms(1)
  show ?thesis by simp
qed

lemma processEvent_returns:
  assumes te: "typedEvent e" and tom: "typedOrders om"
  shows "\<exists>st' om' pm'. processEvent J e (st, om, pm) = Inr (st', om', pm') \<and> typedOrders om'"
proof -
  consider (skip) "\<not> truthyS (category e)"
    | (submit) "processed ''ORDER_SUBMIT'' e"
    | (response) "processed ''ORDER_RESPONSE'' e"
    | (fill) "processed ''ORDER_FILL'' e"
    | (other) "truthyS (category e)" "subcategory e \<noteq> Some ''ORDER_SUBMIT''"
        "subcategory e \<noteq> Some ''ORDER_RESPONSE''" "subcategory e \<noteq> Some ''ORDER_FILL''"
    by (auto simp: processed_def)
  then show ?thesis
  proof cases
    case skip
    with tom show ?thesis by (simp add: processEvent_def)
  next
    case submit
    from te have "stringish (data e ''symbol'')" by (simp add: typedEvent_def)
    with tom have "typedOrders (fst (snd (onOrderSubmit e (st, om, pm))))"
      by (auto simp: onOrderSubmit_def Let_def typedOrders_def split: option.splits)
    moreover from submit
    have "processEvent J e (st, om, pm) = Inr (onOrderSubmit e (st, om, pm))"
      by (simp add: processEvent_def processed_def)
    ultimately show ?thesis by (cases "onOrderSubmit e (st, om, pm)") auto
  next
    case response
    then have "processEvent J e (st, om, pm) = onOrderResponse e (st, om, pm)"
      by (simp add: processEvent_def processed_def)
    with onOrderResponse_returns [OF _ tom, of e st pm] te show ?thesis
      by (auto simp: typedEvent_def)
  next
    case fill
    then have pe: "processEvent J e (st, om, pm) = onOrderFill J e (st, om, pm)"
      by (simp add: processEvent_def processed_def)
    from te have "stringish (data e ''symbol'')" by (simp add: typedEvent_def)
    from fillCounters_returns [OF this] obtain st' where "fillCounters J e st = Inr st'" by blast
    moreover from fillCorrelate_returns [OF tom] obtain om' pm'
      where "fillCorrelate e om pm = Inr (om', pm')" "typedOrders om'" by blast
    ultimately show ?thesis by (simp add: pe onOrderFill_def)
  next
    case other
    with tom show ?thesis
      by (auto simp: processEvent_def onPairEvent_def)
  qed
qed

lemma processEvents_returns:
  assumes "\<forall>e \<in> set es. typedEvent e" and "typedOrders om"
  shows "\<exists>s'. processEvents J es (st, om, pm) = Inr s'"
  using assms
proof (induction es arbitrary: st om pm)
  case Nil
  then show ?case by simp
next
  case (Cons e es)
  from Cons.prems have "typedEvent e" by simp
  from processEvent_returns [OF this Cons.prems(2)] obtain st' om' pm'
    where "processEvent J e (st, om, pm) = Inr (st', om', pm')" "typedOrders om'" by blast
  with Cons.IH [of om' st' pm'] Cons.prems(1) show ?case by simp
qed

lemma calculateSessionStats_returns:
  assumes "\<forall>e \<in> set (events sess). typedEvent e"
  shows "\<exists>stats. calculateSessionStats J sess = Inr stats"
proof -
  have "typedOrders Map.empty" by (simp add: typedOrders_def)
  from processEvents_returns [OF assms this] obtain s' where
    "processEvents J (events sess) (newSessionStats\<lparr> runtime := duration sess \<rparr>, Map.empty, [])
       = Inr s'" by blast
  then show ?thesis by (cases s') (simp add: calculateSessionStats_def)
qed

lemma andIncludes_raises:
  assumes "\<not> stringish v"
  shows "andIncludes v t = Inl TypeError"
  using assms
  by (auto simp: stringish_def andIncludes_def split: option.splits jsval.splits)

lemma response_error_raises:
  assumes "processed ''ORDER_RESPONSE'' e" and "data e ''order_id'' = Some oid" and "truthy oid"
    and "rejects om e oid" and "\<not> stringish (data e ''error'')"
  shows "processEvent J e (st, om, pm) = Inl TypeError"
proof -
  from assms(1) have pe: "processEvent J e (st, om, pm) = onOrderResponse e (st, om, pm)"
    by (simp add: processEvent_def processed_def)
  have cr: "countRejection e s = Inl TypeError" for s
    by (simp add: countRejection_def gtxMarked_def andIncludes_raises [OF assms(5)] Let_def)
  from assms(4) have na: "\<not> accepts om e oid" and mr: "msgIncludes e ''Order rejected''"
    by (simp_all add: rejects_def)
  from na mr assms(2,3) show ?thesis
    unfolding pe onOrderResponse_def
    by (cases "om oid") (simp_all add: latency_prefix cr Let_def accepts_def)
qed

subsection \<open>Aggregation as a fold\<close>

lemma aggregateFrom_fold:
  "aggregateFrom J a ss =
     (case allSessionStats J ss of Inl err \<Rightarrow> Inl err | Inr sts \<Rightarrow> Inr (foldl addStats a sts))"
  by (induction ss arbitrary: a) (auto split: sum.splits)

lemma allSessionStats_append:
  "allSessionStats J (A @ B) =
     (case allSessionStats J A of
        Inl err \<Rightarrow> Inl err
      | Inr sa \<Rightarrow> (case allSessionStats J B of Inl err \<Rightarrow> Inl err | Inr sb \<Rightarrow> Inr (sa @ sb)))"
  by (induction A) (auto split: sum.splits)

lemma fold_counters:
  "runtime (foldl addStats a xs) = runtime a + sum_list (map runtime xs)
   \<and> spreadTriggers (foldl addStats a xs) = spreadTriggers a + sum_list (map spreadTriggers xs)
   \<and> orderPairs_attempted (foldl addStats a xs)
       = orderPairs_attempted a + sum_list (map orderPairs_attempted xs)
   \<and> orderPairs_succeeded (foldl addStats a xs)
       = orderPairs_succeeded a + sum_list (map orderPairs_succeeded xs)
   \<and> orders_total (foldl addStats a xs) = orders_total a + sum_list (map orders_total xs)
   \<and> orders_accepted (foldl addStats a xs) = orders_accepted a + sum_list (map orders_accepted xs)
   \<and> orders_rejected (foldl addStats a xs) = orders_rejected a + sum_list (map orders_rejected xs)
   \<and> fills_total (foldl addStats a xs) = fills_total a + sum_list (map fills_total xs)
   \<and> fills_partial (foldl addStats a xs) = fills_partial a + sum_list (map fills_partial xs)
   \<and> fills_full (foldl addStats a xs) = fills_full a + sum_list (map fills_full xs)
   \<and> fastChase_events (foldl addStats a xs)
       = fastChase_events a + sum_list (map fastChase_events xs)
   \<and> fastChase_successes (foldl addStats a xs)
       = fastChase_successes a + sum_list (map fastChase_successes xs)
   \<and> errors_gtxRejections (foldl addStats a xs)
       = errors_gtxRejections a + sum_list (map errors_gtxRejections xs)
   \<and> errors_apiErrors (foldl addStats a xs)
       = errors_apiErrors a + sum_list (map errors_apiErrors xs)
   \<and> errors_timeouts (foldl addStats a xs) = errors_timeouts a + sum_list (map errors_timeouts xs)
   \<and> errors_other (foldl addStats a xs) = errors_other a + sum_list (map errors_other xs)"
  by (induction xs arbitrary: a) (simp_all add: addStats_def)

lemma fold_samples:
  "orders_latencies (foldl addStats a xs) = orders_latencies a @ concat (map orders_latencies xs)
   \<and> fills_prices (foldl addStats a xs) = fills_prices a @ concat (map fills_prices xs)
   \<and> fastChase_retries (foldl addStats a xs)
       = fastChase_retries a @ concat (map fastChase_retries xs)"
  by (induction xs arbitrary: a) (simp_all add: addStats_def)

lemma fold_quantities:
  "fills_totalQty (foldl addStats a xs) = foldl fadd (fills_totalQty a) (map fills_totalQty xs)
   \<and> fills_usdtQty (foldl addStats a xs) = foldl fadd (fills_usdtQty a) (map fills_usdtQty xs)
   \<and> fills_usdcQty (foldl addStats a xs) = foldl fadd (fills_usdcQty a) (map fills_usdcQty xs)"
  by (induction xs arbitrary: a) (simp_all add: addStats_def del: fadd.simps)

lemma map_of_mergeReasons:
  assumes "distinct (map fst rs)"
  shows "map_of (mergeReasons agg rs) k = mergeCount (map_of agg k) (map_of rs k)"
  using assms
proof (induction agg rs rule: mergeReasons.induct)
  case (1 agg)
  then show ?case by (simp add: mergeCount_def)
next
  case (2 agg reason count rs)
  then have nin: "reason \<notin> fst ` set rs" and d: "distinct (map fst rs)" by auto
  from nin have none: "map_of rs reason = None" by (simp add: map_of_eq_None_iff)
  show ?case
  proof (cases "k = reason")
    case True
    with 2 d none show ?thesis
      by (simp add: update_conv' mergeCount_def)
  next
    case False
    with 2 d show ?thesis
      by (simp add: update_conv' mergeCount_def)
  qed
qed

lemma mergeReasons_distinct:
  "distinct (map fst agg) \<Longrightarrow> distinct (map fst (mergeReasons agg rs))"
  by (induction agg rs rule: mergeReasons.induct) (simp_all add: distinct_update)

lemma mergeCount_assoc: "mergeCount (mergeCount x y) z = mergeCount x (mergeCount y z)"
  by (simp add: mergeCount_def split: option.splits)

lemma mergeCount_None: "mergeCount None y = y" "mergeCount x None = x"
  by (simp_all add: mergeCount_def split: option.splits)

lemma foldl_mergeCount:
  "foldl mergeCount x ms = mergeCount x (foldl mergeCount None ms)"
proof (induction ms arbitrary: x)
  case Nil
  then show ?case by (simp add: mergeCount_None)
next
  case (Cons m ms)
  have "foldl mergeCount x (m # ms) = mergeCount (mergeCount x m) (foldl mergeCount None ms)"
    using Cons [of "mergeCount x m"] by simp
  also have "\<dots> = mergeCount x (mergeCount m (foldl mergeCount None ms))"
    by (rule mergeCount_assoc)
  also have "mergeCount m (foldl mergeCount None ms) = foldl mergeCount None (m # ms)"
    using Cons [of m] by (simp add: mergeCount_None)
  finally show ?case .
qed

lemma fold_reasons:
  assumes "\<forall>s \<in> set xs. distinct (map fst (fastChase_fallbackReasons s))"
  shows "map_of (fastChase_fallbackReasons (foldl addStats a xs)) k
       = foldl mergeCount (map_of (fastChase_fallbackReasons a) k)
           (map (\<lambda>s. map_of (fastChase_fallbackReasons s) k) xs)"
  using assms
  by (induction xs arbitrary: a) (simp_all add: addStats_def map_of_mergeReasons)

lemma fillCounters_reasons:
  assumes "fillCounters J e st = Inr st'"
  shows "fastChase_fallbackReasons st' = fastChase_fallbackReasons st"
proof -
  from assms obtain s where "fillSymbol e = Str s"
    by (cases "fillSymbol e") (auto simp: fillCounters_def fillBucket_def Let_def)
  from assms fillCounters_Str [OF this, of J st] show ?thesis by auto
qed

lemma countRejection_reasons:
  assumes "countRejection e st = Inr st'"
  shows "fastChase_fallbackReasons st' = fastChase_fallbackReasons st"
  using assms by (auto simp: countRejection_def Let_def split: sum.splits if_splits)

lemma onOrderResponse_reasons:
  assumes "onOrderResponse e (st, om, pm) = Inr (st', om', pm')"
  shows "fastChase_fallbackReasons st' = fastChase_fallbackReasons st"
  using assms
  by (auto simp: onOrderResponse_def Let_def split: sum.splits if_splits option.splits
      dest!: countRejection_reasons)

lemma onOrderSubmit_reasons:
  assumes "onOrderSubmit e (st, om, pm) = (st', om', pm')"
  shows "fastChase_fallbackReasons st' = fastChase_fallbackReasons st"
  using assms by (auto simp: onOrderSubmit_def Let_def split: if_splits option.splits)

lemma onOrderFill_reasons:
  assumes "onOrderFill J e (st, om, pm) = Inr (st', om', pm')"
  shows "fastChase_fallbackReasons st' = fastChase_fallbackReasons st"
  using assms by (auto simp: onOrderFill_def split: sum.splits dest: fillCounters_reasons)

lemma processFastChaseEvent_reasons:
  assumes "distinct (map fst (fastChase_fallbackReasons st))"
  shows "distinct (map fst (fastChase_fallbackReasons (processFastChaseEvent J e st)))"
  using assms
  by (simp add: processFastChaseEvent_def bumpReason_def distinct_update Let_def
      split: option.splits)

lemma processEvent_reasons:
  assumes "processEvent J e (st, om, pm) = Inr (st', om', pm')"
    and "distinct (map fst (fastChase_fallbackReasons st))"
  shows "distinct (map fst (fastChase_fallbackReasons st'))"
  using assms
  by (auto simp: processEvent_def processFastChaseEvent_reasons onOther_def onPairEvent_pairs
      split: if_splits
      dest: onOrderResponse_reasons onOrderSubmit_reasons onOrderFill_reasons onPairEvent_pairs)

lemma processEvents_reasons:
  assumes "processEvents J es (st, om, pm) = Inr (st', om', pm')"
    and "distinct (map fst (fastChase_fallbackReasons st))"
  shows "distinct (map fst (fastChase_fallbackReasons st'))"
  using assms
proof (induction es arbitrary: st om pm)
  case Nil
  then show ?case by simp
next
  case (Cons e es)
  from Cons.prems(1) obtain st1 om1 pm1
    where step: "processEvent J e (st, om, pm) = Inr (st1, om1, pm1)"
      and rest: "processEvents J es (st1, om1, pm1) = Inr (st', om', pm')"
    by (auto split: sum.splits)
  from Cons.IH [OF rest processEvent_reasons [OF step Cons.prems(2)]] show ?case .
qed

lemma countPairs_reasons:
  "fastChase_fallbackReasons (countPairs pm st) = fastChase_fallbackReasons st"
  by (induction pm st rule: countPairs.induct) (simp_all add: Let_def)

lemma calculateSessionStats_reasons:
  assumes "calculateSessionStats J sess = Inr st"
  shows "distinct (map fst (fastChase_fallbackReasons st))"
proof -
  from assms obtain st0 om0 pm0
    where pass: "processEvents J (events sess)
                   (newSessionStats\<lparr> runtime := duration sess \<rparr>, Map.empty, []) = Inr (st0, om0, pm0)"
      and fin: "st = countPairs pm0 st0"
    by (auto simp: calculateSessionStats_def split: sum.splits)
  from processEvents_reasons [OF pass] have "distinct (map fst (fastChase_fallbackReasons st0))"
    by (simp add: newSessionStats_def)
  with fin show ?thesis by (simp add: countPairs_reasons)
qed

lemma allSessionStats_reasons:
  assumes "allSessionStats J ss = Inr sts"
  shows "\<forall>s \<in> set sts. distinct (map fst (fastChase_fallbackReasons s))"
  using assms
  by (induction ss arbitrary: sts) (auto split: sum.splits dest: calculateSessionStats_reasons)

subsection \<open>Sums of doubles\<close>

lemma dbl_nearest:
  "fl_round (1 / 10) = dbl_0_1" "fl_round (2 / 10) = dbl_0_2" "fl_round (3 / 10) = dbl_0_3"
  "fl_round (6 / 10) = dbl_0_6"
  unfolding dbl_0_1_def dbl_0_2_def dbl_0_3_def dbl_0_6_def by code_simp+

text \<open>
  The rounding at known values: \<open>1/3\<close> rounds to the double \<^verbatim>\<open>0.3333333333333333\<close>, the
  odd integers just above \<open>2\<^sup>5\<^sup>3\<close> round to even significands.
\<close>

lemma fl_round_examples:
  "fl_round (1 / 3) = Fin (6004799503160661 / 18014398509481984)"
  "fl_round 9007199254740993 = Fin 9007199254740992"
  "fl_round 9007199254740995 = Fin 9007199254740996"
  "fl_round (- 9007199254740993) = Fin (- 9007199254740992)"
  by code_simp+

lemma dbl_sums:
  "fadd (Fin 0) dbl_0_1 = dbl_0_1" "fadd (Fin 0) dbl_0_2 = dbl_0_2"
  "fadd (Fin 0) dbl_0_3 = dbl_0_3"
  "fadd dbl_0_1 dbl_0_2 = dbl_0_30000000000000004"
  "fadd dbl_0_30000000000000004 dbl_0_3 = dbl_0_6000000000000001"
  "fadd dbl_0_2 dbl_0_3 = Fin (1 / 2)"
  "fadd dbl_0_1 (Fin (1 / 2)) = dbl_0_6"
  unfolding dbl_0_1_def dbl_0_2_def dbl_0_3_def dbl_0_6_def dbl_0_30000000000000004_def
    dbl_0_6000000000000001_def
  by code_simp+

lemma dbl_truthy: "truthyNum dbl_0_1" "truthyNum dbl_0_2" "truthyNum dbl_0_3"
  by (simp_all add: dbl_0_1_def dbl_0_2_def dbl_0_3_def)

lemma oneFill_stats:
  assumes "truthyNum q"
  shows "\<exists>st. calculateSessionStats exampleHost (oneFill q) = Inr st
     \<and> fills_totalQty st = fadd (Fin 0) q \<and> fills_total st = 1"
  using assms
  by (simp add: calculateSessionStats_def oneFill_def example_defs reducer_defs
      newSessionStats_def Let_def del: fadd.simps)

lemma oneFill_all:
  assumes "\<forall>q \<in> set qs. truthyNum q"
  shows "\<exists>sts. allSessionStats exampleHost (map oneFill qs) = Inr sts
     \<and> map fills_totalQty sts = map (fadd (Fin 0)) qs
     \<and> map fills_total sts = map (\<lambda>q. 1) qs"
  using assms
proof (induction qs)
  case Nil
  then show ?case by simp
next
  case (Cons q qs)
  then obtain sts where "allSessionStats exampleHost (map oneFill qs) = Inr sts"
    "map fills_totalQty sts = map (fadd (Fin 0)) qs" "map fills_total sts = map (\<lambda>q. 1) qs"
    by auto
  moreover from Cons.prems oneFill_stats [of q] obtain st
    where "calculateSessionStats exampleHost (oneFill q) = Inr st"
      "fills_totalQty st = fadd (Fin 0) q" "fills_total st = 1"
    by auto
  ultimately show ?case by simp
qed

lemma oneFill_aggregate:
  assumes "\<forall>q \<in> set qs. truthyNum q"
  shows "\<exists>a. calculateAggregateStats exampleHost (map oneFill qs) = Inr a
     \<and> fills_totalQty a = foldl fadd (Fin 0) (map (fadd (Fin 0)) qs)
     \<and> fills_total a = length qs"
proof -
  from oneFill_all [OF assms] obtain sts
    where sts: "allSessionStats exampleHost (map oneFill qs) = Inr sts"
      and q: "map fills_totalQty sts = map (fadd (Fin 0)) qs"
      and t: "map fills_total sts = map (\<lambda>q. 1) qs"
    by blast
  have "calculateAggregateStats exampleHost (map oneFill qs)
          = Inr (foldl addStats newSessionStats sts)"
    by (simp add: calculateAggregateStats_def aggregateFrom_fold sts)
  moreover have "fills_totalQty (foldl addStats newSessionStats sts)
                   = foldl fadd (Fin 0) (map (fadd (Fin 0)) qs)"
    using fold_quantities [of newSessionStats sts] q by (simp add: newSessionStats_def)
  moreover have "fills_total (foldl addStats newSessionStats sts) = length qs"
    using fold_counters [of newSessionStats sts] t
    by (simp add: newSessionStats_def sum_list_triv)
  ultimately show ?thesis by simp
qed

subsection \<open>Order detail extraction\<close>

lemma findIndex_None_iff: "findIndex P xs = None \<longleftrightarrow> (\<forall>x \<in> set xs. \<not> P x)"
  by (induction xs) auto

lemma findIndex_Some_iff:
  "findIndex P xs = Some i \<longleftrightarrow> i < length xs \<and> P (xs ! i) \<and> (\<forall>j < i. \<not> P (xs ! j))"
proof (induction xs arbitrary: i)
  case Nil
  then show ?case by simp
next
  case (Cons x xs)
  show ?case
  proof (cases "P x")
    case True
    then show ?thesis by (cases i) auto
  next
    case False
    show ?thesis
    proof (cases i)
      case 0
      with False show ?thesis by simp
    next
      case (Suc k)
      have "(\<forall>j < Suc k. \<not> P ((x # xs) ! j)) \<longleftrightarrow> (\<forall>j < k. \<not> P (xs ! j))"
        using False by (auto simp: less_Suc_eq_0_disj)
      with False Suc Cons.IH [of k] show ?thesis by auto
    qed
  qed
qed

lemma takeSubmit_none:
  assumes "\<forall>s \<in> set ps. \<not> matchesSymbol e s"
  shows "takeSubmit (data e ''symbol'') ps = (None, ps)"
  using assms by (simp add: takeSubmit_def matchesSymbol_def findIndex_None_iff [THEN iffD2])

lemma takeSubmit_first:
  assumes "i < length ps" and "matchesSymbol e (ps ! i)"
    and "\<forall>j < i. \<not> matchesSymbol e (ps ! j)"
  shows "takeSubmit (data e ''symbol'') ps = (Some (ps ! i), take i ps @ drop (Suc i) ps)"
proof -
  from assms have "findIndex (\<lambda>s. strictEq (p_symbol s) (data e ''symbol'')) ps = Some i"
    by (simp add: findIndex_Some_iff matchesSymbol_def)
  then show ?thesis by (simp add: takeSubmit_def splice1_def)
qed

lemma findIndex_snoc:
  assumes "\<not> P y"
  shows "findIndex P (xs @ [y]) = findIndex P xs"
  using assms by (induction xs) simp_all

lemma fillRow_not_accepted: "\<not> acceptedRowOf oid (fillRow J e base)"
  by (simp add: acceptedRowOf_def fillRow_def)

lemma filter_splice:
  assumes "i < length xs" and "P (xs ! i)"
  shows "length (filter P (take i xs @ drop (Suc i) xs)) = length (filter P xs) - 1"
proof -
  have "xs = take i xs @ xs ! i # drop (Suc i) xs" using assms(1) by (rule id_take_nth_drop)
  then have "length (filter P xs) = length (filter P (take i xs @ xs ! i # drop (Suc i) xs))"
    by simp
  also have "\<dots> = length (filter P (take i xs @ drop (Suc i) xs)) + 1"
    using assms(2) by simp
  finally show ?thesis by simp
qed

lemma rowsStep_fill:
  assumes "subcategory e = Some ''ORDER_FILL''"
  shows "rowsStep J e (rows, bm, ps) =
     ((case findIndex (acceptedRowOf (data e ''order_id'')) rows of
         None \<Rightarrow> rows | Some i \<Rightarrow> take i rows @ drop (Suc i) rows)
      @ [fillRow J e (case data e ''order_id'' of None \<Rightarrow> None | Some k \<Rightarrow> bm k)],
      bm, ps)"
proof -
  let ?f = "fillRow J e (case data e ''order_id'' of None \<Rightarrow> None | Some k \<Rightarrow> bm k)"
  let ?P = "acceptedRowOf (data e ''order_id'')"
  have fi: "findIndex ?P (rows @ [?f]) = findIndex ?P rows"
    by (rule findIndex_snoc) (rule fillRow_not_accepted)
  show ?thesis
  proof (cases "findIndex ?P rows")
    case None
    with assms fi show ?thesis by (simp add: rowsStep_def Let_def)
  next
    case (Some i)
    then have "i < length rows" by (simp add: findIndex_Some_iff)
    with assms fi Some show ?thesis by (simp add: rowsStep_def Let_def splice1_def)
  qed
qed

lemma detailsStep_length:
  "length (fst (detailsStep J e (orders, om, ps)))
     = length orders + (if idResponse e then 1 else 0)"
  by (auto simp: detailsStep_def idResponse_def truthyO_def
      split: option.splits prod.splits)

lemma details_fold_length:
  "length (fst (foldl (\<lambda>s e. detailsStep J e s) (orders, om, ps) es))
     = length orders + length (filter idResponse es)"
proof (induction es arbitrary: orders om ps)
  case Nil
  then show ?case by simp
next
  case (Cons e es)
  obtain orders1 om1 ps1 where st: "detailsStep J e (orders, om, ps) = (orders1, om1, ps1)"
    by (cases "detailsStep J e (orders, om, ps)")
  with detailsStep_length [of J e orders om ps]
  have "length orders1 = length orders + (if idResponse e then 1 else 0)" by simp
  with Cons.IH [of orders1 om1 ps1] st show ?case by simp
qed

lemma extractOrderDetails_length:
  "length (extractOrderDetails J sessions)
     = length (filter idResponse (concat (map events sessions)))"
proof -
  obtain orders om ps where
    f: "foldl (\<lambda>s e. detailsStep J e s) ([], Map.empty, []) (concat (map events sessions))
          = (orders, om, ps)"
    by (cases "foldl (\<lambda>s e. detailsStep J e s) ([], Map.empty, []) (concat (map events sessions))")
  with details_fold_length [of J "[]" Map.empty "[]" "concat (map events sessions)"]
  show ?thesis by (simp add: extractOrderDetails_def)
qed

lemma detailsStep_fill:
  assumes "subcategory e = Some ''ORDER_FILL''"
  shows "\<exists>orders'. detailsStep J e (orders, om, ps) = (orders', om, ps)
     \<and> length orders' = length orders \<and> map orderId orders' = map orderId orders"
proof -
  have oid: "orderId (fillDetail J e d) = orderId d" for d
    by (simp add: fillDetail_def Let_def)
  have upd: "map orderId (orders[i := fillDetail J e (orders ! i)]) = map orderId orders" for i
  proof (cases "i < length orders")
    case True
    then show ?thesis by (simp add: map_update oid list_update_same_conv)
  next
    case False
    then show ?thesis by (simp add: list_update_beyond)
  qed
  from assms show ?thesis
    by (auto simp: detailsStep_def upd split: option.splits)
qed

lemma fillDetail_filled: "fillDetail J e r = filledDetail J e r"
  by (simp add: fillDetail_def filledDetail_def numOr_def truthyNum_iff Let_def)

lemma detailsStep_fill_matched:
  assumes "subcategory e = Some ''ORDER_FILL''"
    and "data e ''order_id'' = Some oid" and "truthy oid" and "om oid = Some i"
  shows "detailsStep J e (orders, om, ps) = (orders[i := filledDetail J e (orders ! i)], om, ps)"
  using assms by (simp add: detailsStep_def fillDetail_filled)

lemma detailsStep_fill_unmatched:
  assumes "subcategory e = Some ''ORDER_FILL''" and "unmatched om e"
  shows "detailsStep J e (orders, om, ps) = (orders, om, ps)"
  using assms by (auto simp: detailsStep_def unmatched_def split: option.splits)

lemma orderId_filledDetail: "orderId (filledDetail J e r) = orderId r"
  by (simp add: filledDetail_def)

lemma orderId_update:
  assumes "j < length orders"
  shows "orderId (orders[k := filledDetail J e (orders ! k)] ! j) = orderId (orders ! j)"
proof (cases "k = j")
  case True
  with assms show ?thesis by (simp add: orderId_filledDetail)
next
  case False
  then show ?thesis by simp
qed

lemma lastRowOf_update:
  assumes "lastRowOf orders oid i"
  shows "lastRowOf (orders[k := filledDetail J e (orders ! k)]) oid i"
  using assms by (simp add: lastRowOf_def orderId_update)

lemma lastRowOf_snoc_new:
  assumes "orderId r = Some oid"
  shows "lastRowOf (orders @ [r]) oid (length orders)"
  using assms by (simp add: lastRowOf_def)

lemma lastRowOf_snoc_old:
  assumes "lastRowOf orders oid i" and "orderId r \<noteq> Some oid"
  shows "lastRowOf (orders @ [r]) oid i"
  using assms
  by (auto simp: lastRowOf_def nth_append less_Suc_eq)

lemma detailsStep_inv:
  assumes "detailsInv orders om"
    and "detailsStep J e (orders, om, ps) = (orders', om', ps')"
  shows "detailsInv orders' om'"
proof -
  consider (submit) "subcategory e = Some ''ORDER_SUBMIT''"
    | (response) "subcategory e = Some ''ORDER_RESPONSE''"
    | (fill) "subcategory e = Some ''ORDER_FILL''"
    | (other) "subcategory e \<noteq> Some ''ORDER_SUBMIT''" "subcategory e \<noteq> Some ''ORDER_RESPONSE''"
        "subcategory e \<noteq> Some ''ORDER_FILL''"
    by blast
  then show ?thesis
  proof cases
    case submit
    with assms show ?thesis by (auto simp: detailsStep_def)
  next
    case response
    show ?thesis
    proof (cases "idResponse e")
      case False
      with response assms show ?thesis
        by (auto simp: detailsStep_def idResponse_def truthyO_def split: option.splits)
    next
      case True
      with response obtain oid where oid: "data e ''order_id'' = Some oid" "truthy oid"
        by (auto simp: idResponse_def truthyO_def split: option.splits)
      obtain si ps1 where ts: "takeSubmit (data e ''symbol'') ps = (si, ps1)"
        by (cases "takeSubmit (data e ''symbol'') ps")
      from response oid ts assms(2)
      have o': "orders' = orders @ [responseDetail e oid si]"
        and m': "om' = om(oid \<mapsto> length orders)"
        by (simp_all add: detailsStep_def)
      have rid: "orderId (responseDetail e oid si) = Some oid"
        by (simp add: responseDetail_def)
      show ?thesis
        unfolding detailsInv_def
      proof (intro allI impI)
        fix k i
        assume a: "om' k = Some i"
        show "lastRowOf orders' k i"
        proof (cases "k = oid")
          case True
          with a m' have "i = length orders" by simp
          with True o' rid show ?thesis by (simp add: lastRowOf_snoc_new)
        next
          case False
          with a m' have "om k = Some i" by simp
          with assms(1) have "lastRowOf orders k i" by (simp add: detailsInv_def)
          moreover from False rid have "orderId (responseDetail e oid si) \<noteq> Some k" by simp
          ultimately show ?thesis unfolding o' by (rule lastRowOf_snoc_old)
        qed
      qed
    qed
  next
    case fill
    show ?thesis
    proof (cases "unmatched om e")
      case True
      with fill assms show ?thesis by (simp add: detailsStep_fill_unmatched)
    next
      case False
      then obtain oid i where m: "data e ''order_id'' = Some oid" "truthy oid" "om oid = Some i"
        by (auto simp: unmatched_def split: option.splits)
      from detailsStep_fill_matched [OF fill m(1,2), where om = om, OF m(3)] assms(2)
      have "orders' = orders[i := filledDetail J e (orders ! i)]" "om' = om"
        by simp_all
      with assms(1) show ?thesis
        by (simp add: detailsInv_def lastRowOf_update)
    qed
  next
    case other
    with assms show ?thesis by (simp add: detailsStep_def)
  qed
qed

lemma details_fold_inv:
  assumes "detailsInv orders om"
    and "foldl (\<lambda>s e. detailsStep J e s) (orders, om, ps) es = (orders', om', ps')"
  shows "detailsInv orders' om'"
  using assms
proof (induction es arbitrary: orders om ps)
  case Nil
  then show ?case by simp
next
  case (Cons e es)
  obtain orders1 om1 ps1 where st: "detailsStep J e (orders, om, ps) = (orders1, om1, ps1)"
    by (cases "detailsStep J e (orders, om, ps)")
  from detailsStep_inv [OF Cons.prems(1) st] have "detailsInv orders1 om1" .
  from Cons.IH [OF this] Cons.prems(2) st show ?case by simp
qed

lemma details_pass_inv:
  assumes "foldl (\<lambda>s e. detailsStep J e s) ([], Map.empty, []) es = (orders, om, ps)"
  shows "detailsInv orders om"
proof -
  have "detailsInv [] Map.empty" by (simp add: detailsInv_def)
  from details_fold_inv [OF this assms] show ?thesis .
qed

lemma detailsStep_fill_rows:
  assumes "subcategory e = Some ''ORDER_FILL''"
  shows "\<exists>orders'. detailsStep J e (orders, om, ps) = (orders', om, ps)
     \<and> length orders' = length orders \<and> map orderId orders' = map orderId orders
     \<and> (unmatched om e \<longrightarrow> orders' = orders)
     \<and> (\<forall>oid i. data e ''order_id'' = Some oid \<and> truthy oid \<and> om oid = Some i \<longrightarrow>
           orders' = orders[i := filledDetail J e (orders ! i)])"
proof (cases "unmatched om e")
  case True
  then have no: "\<not> (data e ''order_id'' = Some oid \<and> truthy oid \<and> om oid = Some i)" for oid i
    by (auto simp: unmatched_def)
  have st: "detailsStep J e (orders, om, ps) = (orders, om, ps)"
    by (rule detailsStep_fill_unmatched [OF assms True])
  from no have "\<forall>oid i. data e ''order_id'' = Some oid \<and> truthy oid \<and> om oid = Some i \<longrightarrow>
           orders = orders[i := filledDetail J e (orders ! i)]"
    by blast
  with st show ?thesis by simp
next
  case False
  then obtain oid i where m: "data e ''order_id'' = Some oid" "truthy oid" "om oid = Some i"
    by (auto simp: unmatched_def split: option.splits)
  let ?o = "orders[i := filledDetail J e (orders ! i)]"
  have st: "detailsStep J e (orders, om, ps) = (?o, om, ps)"
    by (rule detailsStep_fill_matched [OF assms m(1,2), where om = om, OF m(3)])
  from detailsStep_fill [OF assms, of J orders om ps] st
  have "length ?o = length orders" "map orderId ?o = map orderId orders"
    by simp_all
  moreover have "\<forall>oid' k. data e ''order_id'' = Some oid' \<and> truthy oid' \<and> om oid' = Some k \<longrightarrow>
      ?o = orders[k := filledDetail J e (orders ! k)]"
    using m by auto
  ultimately show ?thesis using st False by blast
qed

lemma filter_update_le:
  assumes "\<not> P y"
  shows "length (filter P (xs[i := y])) \<le> length (filter P xs)"
  using assms
proof (induction xs arbitrary: i)
  case Nil
  then show ?case by simp
next
  case (Cons x xs)
  then show ?case by (cases i) (auto simp: le_SucI)
qed

lemma filter_splice_le:
  "length (filter P (take i xs @ drop (Suc i) xs)) \<le> length (filter P xs)"
proof (cases "i < length xs")
  case True
  then have "xs = take i xs @ xs ! i # drop (Suc i) xs" by (rule id_take_nth_drop)
  then have "length (filter P xs) = length (filter P (take i xs @ xs ! i # drop (Suc i) xs))"
    by simp
  then show ?thesis by simp
next
  case False
  then show ?thesis by simp
qed

lemma set_splice: "set (take i xs @ drop (Suc i) xs) \<subseteq> set xs"
  using set_take_subset [of i xs] set_drop_subset [of "Suc i" xs] by auto

lemma accepted_strict:
  assumes "status r = ''accepted''" and "truthyO (orderId r)"
  shows "acceptedRowOf (orderId r) r"
  using assms
  by (auto simp: acceptedRowOf_def strictEq_def truthyO_def split: option.splits)

lemma laterResponseIds_Cons:
  "laterResponseIds (e # es)
     = (if idResponse e then data e ''order_id'' # laterResponseIds es else laterResponseIds es)"
  by (simp add: laterResponseIds_def)

lemma rowsInv_tail:
  assumes "rowsInv rows (e # es)"
  shows "rowsInv rows es"
  using assms by (auto simp: rowsInv_def laterResponseIds_Cons split: if_splits)

lemma rowsInv_response:
  assumes inv: "rowsInv rows (e # es)" and ord: "orderly (e # es)" and ir: "idResponse e"
    and oid: "orderId row = data e ''order_id''" and nf: "\<not> isFillRow row"
  shows "rowsInv (rows @ [row]) es"
proof -
  from ir have t: "truthyO (data e ''order_id'')" by (simp add: idResponse_def)
  from inv ir have fresh: "\<forall>r \<in> set rows. orderId r \<noteq> data e ''order_id''"
    by (auto simp: rowsInv_def laterResponseIds_Cons)
  from ord ir have later: "data e ''order_id'' \<notin> set (laterResponseIds es)" by simp
  note tl = rowsInv_tail [OF inv]
  have i1: "\<forall>r \<in> set (rows @ [row]). status r = ''accepted'' \<longrightarrow> truthyO (orderId r)"
    using tl t oid by (auto simp: rowsInv_def)
  have i2: "\<forall>r \<in> set (rows @ [row]). orderId r \<notin> set (laterResponseIds es)"
    using tl later oid by (auto simp: rowsInv_def)
  have i3: "length (filter (acceptedRowOf k) (rows @ [row])) \<le> 1" for k
  proof (cases "acceptedRowOf k row")
    case True
    then have "orderId row = k" by (simp add: acceptedRowOf_def strictEq_def)
    with fresh oid have "filter (acceptedRowOf k) rows = []"
      by (auto simp: filter_empty_conv acceptedRowOf_def strictEq_def)
    then show ?thesis by simp
  next
    case False
    with tl show ?thesis by (simp add: rowsInv_def)
  qed
  have i4: "\<forall>f \<in> set (rows @ [row]). \<forall>r \<in> set (rows @ [row]).
              isFillRow f \<and> orderId r = orderId f \<longrightarrow> status r \<noteq> ''accepted''"
  proof (intro ballI impI)
    fix f r
    assume f: "f \<in> set (rows @ [row])" and r: "r \<in> set (rows @ [row])"
      and h: "isFillRow f \<and> orderId r = orderId f"
    from h nf f have fin: "f \<in> set rows" by auto
    show "status r \<noteq> ''accepted''"
    proof (cases "r \<in> set rows")
      case True
      with tl fin h show ?thesis by (auto simp: rowsInv_def)
    next
      case False
      with r have "r = row" by simp
      with h oid fresh fin show ?thesis by auto
    qed
  qed
  from i1 i2 i3 i4 show ?thesis by (simp add: rowsInv_def)
qed

lemma rowsInv_fill:
  assumes inv: "rowsInv rows (e # es)" and ord: "orderly (e # es)"
    and sub: "subcategory e = Some ''ORDER_FILL''"
    and oid: "orderId f = data e ''order_id''" and fr: "isFillRow f"
  shows "rowsInv ((case findIndex (acceptedRowOf (data e ''order_id'')) rows of
                     None \<Rightarrow> rows | Some i \<Rightarrow> take i rows @ drop (Suc i) rows) @ [f]) es"
proof -
  let ?P = "acceptedRowOf (data e ''order_id'')"
  let ?R = "case findIndex ?P rows of None \<Rightarrow> rows | Some i \<Rightarrow> take i rows @ drop (Suc i) rows"
  note tl = rowsInv_tail [OF inv]
  have sub_set: "set ?R \<subseteq> set rows"
    by (auto split: option.splits dest: in_set_takeD in_set_dropD)
  have cnt: "length (filter Q ?R) \<le> length (filter Q rows)" for Q
    using filter_splice_le by (auto split: option.splits)
  from fr have na: "status f \<noteq> ''accepted''" by (auto simp: isFillRow_def)
  then have nP: "\<not> acceptedRowOf k f" for k by (simp add: acceptedRowOf_def)
  have none: "filter ?P ?R = []"
  proof (cases "findIndex ?P rows")
    case None
    then have "\<forall>x \<in> set rows. \<not> ?P x" by (simp add: findIndex_None_iff)
    with None show ?thesis by (simp add: filter_empty_conv)
  next
    case (Some i)
    then have "i < length rows" "?P (rows ! i)" by (simp_all add: findIndex_Some_iff)
    from filter_splice [of i rows ?P, OF this] tl Some
    have "length (filter ?P ?R) = 0" by (simp add: rowsInv_def)
    then show ?thesis by simp
  qed
  from ord sub have later: "data e ''order_id'' \<notin> set (laterResponseIds es)" by simp
  from tl have t1: "\<forall>r \<in> set rows. status r = ''accepted'' \<longrightarrow> truthyO (orderId r)"
    and t2: "\<forall>r \<in> set rows. orderId r \<notin> set (laterResponseIds es)"
    by (simp_all add: rowsInv_def)
  have i1: "\<forall>r \<in> set (?R @ [f]). status r = ''accepted'' \<longrightarrow> truthyO (orderId r)"
  proof
    fix r assume "r \<in> set (?R @ [f])"
    then have "r \<in> set ?R \<or> r = f" by auto
    with sub_set have "r \<in> set rows \<or> r = f" by blast
    with t1 na show "status r = ''accepted'' \<longrightarrow> truthyO (orderId r)" by blast
  qed
  have i2: "\<forall>r \<in> set (?R @ [f]). orderId r \<notin> set (laterResponseIds es)"
  proof
    fix r assume "r \<in> set (?R @ [f])"
    then have "r \<in> set ?R \<or> r = f" by auto
    with sub_set have "r \<in> set rows \<or> r = f" by blast
    with t2 later oid show "orderId r \<notin> set (laterResponseIds es)" by auto
  qed
  have i3: "length (filter (acceptedRowOf k) (?R @ [f])) \<le> 1" for k
  proof -
    have "length (filter (acceptedRowOf k) (?R @ [f])) = length (filter (acceptedRowOf k) ?R)"
      using nP by simp
    also have "\<dots> \<le> length (filter (acceptedRowOf k) rows)" by (rule cnt)
    also have "\<dots> \<le> 1" using tl by (simp add: rowsInv_def)
    finally show ?thesis .
  qed
  have i4: "\<forall>g \<in> set (?R @ [f]). \<forall>r \<in> set (?R @ [f]).
              isFillRow g \<and> orderId r = orderId g \<longrightarrow> status r \<noteq> ''accepted''"
  proof (intro ballI impI)
    fix g r
    assume g: "g \<in> set (?R @ [f])" and r: "r \<in> set (?R @ [f])"
      and h: "isFillRow g \<and> orderId r = orderId g"
    show "status r \<noteq> ''accepted''"
    proof (cases "r = f")
      case True
      with na show ?thesis by simp
    next
      case False
      with r have rR: "r \<in> set ?R" by simp
      show ?thesis
      proof (cases "g = f")
        case True
        show ?thesis
        proof
          assume acc: "status r = ''accepted''"
          with i1 rR have "truthyO (orderId r)" by simp
          with acc have "acceptedRowOf (orderId r) r" by (rule accepted_strict)
          with h True oid have "?P r" by simp
          with rR have "r \<in> set (filter ?P ?R)" by simp
          with none show False by simp
        qed
      next
        case False
        with g have "g \<in> set ?R" by simp
        with sub_set have gin: "g \<in> set rows" by blast
        from rR sub_set have rin: "r \<in> set rows" by blast
        from tl have "\<forall>f \<in> set rows. \<forall>r \<in> set rows.
            isFillRow f \<and> orderId r = orderId f \<longrightarrow> status r \<noteq> ''accepted''"
          by (simp add: rowsInv_def)
        with gin rin h show ?thesis by blast
      qed
    qed
  qed
  from i1 i2 i3 i4 show ?thesis by (simp add: rowsInv_def)
qed

lemma rowsInv_setFirstStatus:
  assumes inv: "rowsInv rows es" and st: "st \<noteq> ''accepted''" "st \<noteq> ''partial''" "st \<noteq> ''filled''"
  shows "rowsInv (setFirstStatus P st rows) es"
proof (cases "findIndex P rows")
  case None
  with inv show ?thesis by (simp add: setFirstStatus_def)
next
  case (Some i)
  then have i: "i < length rows" by (simp add: findIndex_Some_iff)
  let ?x = "(rows ! i)\<lparr> status := st \<rparr>"
  let ?R = "rows[i := ?x]"
  have eq: "setFirstStatus P st rows = ?R" by (simp add: setFirstStatus_def Some)
  have mem: "r \<in> set ?R \<Longrightarrow> r \<in> set rows \<or> r = ?x" for r
    using set_update_subset_insert [of rows i ?x] by auto
  from i have xin: "rows ! i \<in> set rows" by simp
  from st have nx: "\<not> acceptedRowOf k ?x" for k by (simp add: acceptedRowOf_def)
  from st have nfx: "\<not> isFillRow ?x" by (simp add: isFillRow_def)
  have i1: "\<forall>r \<in> set ?R. status r = ''accepted'' \<longrightarrow> truthyO (orderId r)"
    using inv st(1) by (auto simp: rowsInv_def dest!: mem)
  have i2: "\<forall>r \<in> set ?R. orderId r \<notin> set (laterResponseIds es)"
    using inv xin by (auto simp: rowsInv_def dest!: mem)
  have i3: "length (filter (acceptedRowOf k) ?R) \<le> 1" for k
  proof -
    have "length (filter (acceptedRowOf k) ?R) \<le> length (filter (acceptedRowOf k) rows)"
      by (rule filter_update_le) (rule nx)
    also have "\<dots> \<le> 1" using inv by (simp add: rowsInv_def)
    finally show ?thesis .
  qed
  have i4: "\<forall>g \<in> set ?R. \<forall>r \<in> set ?R.
              isFillRow g \<and> orderId r = orderId g \<longrightarrow> status r \<noteq> ''accepted''"
  proof (intro ballI impI)
    fix g r
    assume g: "g \<in> set ?R" and r: "r \<in> set ?R" and h: "isFillRow g \<and> orderId r = orderId g"
    from mem [OF g] h nfx have gin: "g \<in> set rows" by auto
    from mem [OF r] show "status r \<noteq> ''accepted''"
    proof
      assume "r \<in> set rows"
      with gin h inv show ?thesis by (auto simp: rowsInv_def)
    next
      assume "r = ?x"
      with st(1) show ?thesis by simp
    qed
  qed
  from i1 i2 i3 i4 show ?thesis by (simp add: rowsInv_def eq)
qed

lemma rowsInv_map:
  assumes inv: "rowsInv rows es"
    and g: "\<And>r. orderId (g r) = orderId r \<and> status (g r) = status r"
  shows "rowsInv (map g rows) es"
proof -
  have P: "acceptedRowOf k (g r) = acceptedRowOf k r" for k r
    by (simp add: acceptedRowOf_def g)
  have "filter (acceptedRowOf k) (map g rows) = map g (filter (acceptedRowOf k) rows)" for k
    by (simp add: filter_map o_def P)
  then have i3: "length (filter (acceptedRowOf k) (map g rows)) \<le> 1" for k
    using inv by (simp add: rowsInv_def)
  from inv g have rest:
    "\<forall>r \<in> set (map g rows). status r = ''accepted'' \<longrightarrow> truthyO (orderId r)"
    "\<forall>r \<in> set (map g rows). orderId r \<notin> set (laterResponseIds es)"
    "\<forall>f \<in> set (map g rows). \<forall>r \<in> set (map g rows).
        isFillRow f \<and> orderId r = orderId f \<longrightarrow> status r \<noteq> ''accepted''"
    by (auto simp: rowsInv_def isFillRow_def)
  with i3 show ?thesis by (simp add: rowsInv_def)
qed

lemma responseDetail_row:
  "orderId (responseDetail e oid si) = Some oid \<and> \<not> isFillRow (responseDetail e oid si)"
  by (simp add: responseDetail_def responseStatus_def isFillRow_def)

lemma fillRow_row:
  "orderId (fillRow J e base) = data e ''order_id'' \<and> isFillRow (fillRow J e base)"
  by (simp add: fillRow_def isFillRow_def)

lemma rowsStep_inv:
  assumes inv: "rowsInv rows (e # es)" and ord: "orderly (e # es)"
    and step: "rowsStep J e (rows, bm, ps) = (rows', bm', ps')"
  shows "rowsInv rows' es"
proof -
  note tl = rowsInv_tail [OF inv]
  consider (submit) "subcategory e = Some ''ORDER_SUBMIT''"
    | (response) "subcategory e = Some ''ORDER_RESPONSE''"
    | (fill) "subcategory e = Some ''ORDER_FILL''"
    | (state) "subcategory e = Some ''ORDER_STATE''"
    | (link) "subcategory e = Some ''PAIR_LINK''"
    | (other) "subcategory e \<noteq> Some ''ORDER_SUBMIT''" "subcategory e \<noteq> Some ''ORDER_RESPONSE''"
        "subcategory e \<noteq> Some ''ORDER_FILL''" "subcategory e \<noteq> Some ''ORDER_STATE''"
        "subcategory e \<noteq> Some ''PAIR_LINK''"
    by blast
  then show ?thesis
  proof cases
    case submit
    with step tl show ?thesis by (simp add: rowsStep_def)
  next
    case response
    show ?thesis
    proof (cases "idResponse e")
      case True
      then obtain oid where oid: "data e ''order_id'' = Some oid" and t: "truthy oid"
        by (auto simp: idResponse_def truthyO_def split: option.splits)
      obtain si ps1 where ts: "takeSubmit (data e ''symbol'') ps = (si, ps1)"
        by (cases "takeSubmit (data e ''symbol'') ps")
      from step response oid t ts have "rows' = rows @ [responseDetail e oid si]"
        by (simp add: rowsStep_def)
      moreover have "rowsInv (rows @ [responseDetail e oid si]) es"
        by (rule rowsInv_response [OF inv ord True]) (simp_all add: responseDetail_row oid)
      ultimately show ?thesis by simp
    next
      case False
      with response have "\<not> truthyO (data e ''order_id'')" by (simp add: idResponse_def)
      with step response have "rows' = rows"
        by (auto simp: rowsStep_def truthyO_def split: option.splits)
      with tl show ?thesis by simp
    qed
  next
    case fill
    from step rowsStep_fill [OF fill, of J rows bm ps]
    have "rows' = (case findIndex (acceptedRowOf (data e ''order_id'')) rows of
                     None \<Rightarrow> rows | Some i \<Rightarrow> take i rows @ drop (Suc i) rows)
                  @ [fillRow J e (case data e ''order_id'' of None \<Rightarrow> None | Some k \<Rightarrow> bm k)]"
      by simp
    moreover have "rowsInv ((case findIndex (acceptedRowOf (data e ''order_id'')) rows of
                     None \<Rightarrow> rows | Some i \<Rightarrow> take i rows @ drop (Suc i) rows)
                  @ [fillRow J e (case data e ''order_id'' of None \<Rightarrow> None | Some k \<Rightarrow> bm k)]) es"
      by (rule rowsInv_fill [OF inv ord fill]) (simp_all add: fillRow_row)
    ultimately show ?thesis by simp
  next
    case state
    have a: "rowsInv (setFirstStatus P ''rejected'' rows) es"
      and b: "rowsInv (setFirstStatus P ''canceled'' rows) es" for P
      by (rule rowsInv_setFirstStatus [OF tl]; simp)+
    from step state have "rows' = rows
        \<or> (\<exists>P. rows' = setFirstStatus P ''rejected'' rows)
        \<or> (\<exists>P. rows' = setFirstStatus P ''canceled'' rows)"
      by (auto simp: rowsStep_def split: option.splits if_splits)
    with tl a b show ?thesis by auto
  next
    case link
    let ?g = "\<lambda>r. if strictEq (orderId r) (data e ''usdt_order'')
                      \<or> strictEq (orderId r) (data e ''usdc_order'')
                   then r\<lparr> pairId := data e ''pair_id'' \<rparr> else r"
    from step link have "rows' = map ?g rows" by (simp add: rowsStep_def)
    moreover have "rowsInv (map ?g rows) es"
      by (rule rowsInv_map [OF tl]) simp
    ultimately show ?thesis by simp
  next
    case other
    with step tl show ?thesis by (simp add: rowsStep_def)
  qed
qed

lemma rows_fold_inv:
  assumes "rowsInv rows es" and "orderly es"
    and "foldl (\<lambda>s e. rowsStep J e s) (rows, bm, ps) es = (rows', bm', ps')"
  shows "rowsInv rows' []"
  using assms
proof (induction es arbitrary: rows bm ps)
  case Nil
  then show ?case by simp
next
  case (Cons e es)
  obtain rows1 bm1 ps1 where st: "rowsStep J e (rows, bm, ps) = (rows1, bm1, ps1)"
    by (cases "rowsStep J e (rows, bm, ps)")
  from rowsStep_inv [OF Cons.prems(1,2) st] have "rowsInv rows1 es" .
  moreover from Cons.prems(2) have "orderly es" by simp
  moreover from Cons.prems(3) st
  have "foldl (\<lambda>s e. rowsStep J e s) (rows1, bm1, ps1) es = (rows', bm', ps')" by simp
  ultimately show ?case by (rule Cons.IH)
qed

lemma sessionRows_no_accepted_beside_fill:
  assumes "orderly (events sess)"
  shows "\<forall>f \<in> set (sessionRows J sess). \<forall>r \<in> set (sessionRows J sess).
           isFillRow f \<and> orderId r = orderId f \<longrightarrow> status r \<noteq> ''accepted''"
proof -
  obtain rows bm ps where f: "sessionRowsState J (events sess) = (rows, bm, ps)"
    by (cases "sessionRowsState J (events sess)")
  have "rowsInv [] (events sess)" by (simp add: rowsInv_def)
  from rows_fold_inv [OF this assms f [unfolded sessionRowsState_def]]
  have "rowsInv rows []" .
  then have "\<forall>f \<in> set rows. \<forall>r \<in> set rows.
           isFillRow f \<and> orderId r = orderId f \<longrightarrow> status r \<noteq> ''accepted''"
    by (simp add: rowsInv_def)
  with f show ?thesis by (simp add: sessionRows_def)
qed

lemmas extract_defs =
  detailsStep_def rowsStep_def takeSubmit_def splice1_def responseDetail_def responseBase_def
  responseStatus_def fillRow_def fillDetail_def newPending_def acceptedRowOf_def
  setFirstStatus_def rowTime_def sessionRows_def sessionRowsState_def extractOrderDetails_def
  msgIncludes_def truthyO_def strictEq_def jsOr_def numOr_def parseFloat_def

lemmas extract_examples =
  submitAt_def acceptedAt_def acceptedNoIdAt_def fillAt_def audit_def exampleHost_def

section \<open>The claims\<close>

subsection \<open>C1: attempted and succeeded order pairs\<close>

text \<open>
  C1, as stated, fails in its scenario. A \<^verbatim>\<open>PAIR_LINK\<close> event registers its pair-id in the
  pair table and nothing more: the reducer does not read the orders it names, nor the
  pair-id in the payload of a fill. A fill marks a leg of the pair-id its order was
  submitted with. In a session that submits the two orders without pair-id, links them by
  a \<^verbatim>\<open>PAIR_LINK\<close> and fills both, one pair is attempted and none succeeds.
\<close>

theorem pair_link_alone_counterexample:
  "map_sum id orderPairs_attempted (calculateSessionStats exampleHost linkOnlySession) = Inr 1
   \<and> map_sum id orderPairs_succeeded (calculateSessionStats exampleHost linkOnlySession) = Inr 0"
  by (simp add: calculateSessionStats_def linkOnlySession_def bareSubmitT_def bareSubmitC_def
      pairLink_def linkedFillT_def linkedFillC_def example_defs reducer_defs newSessionStats_def
      Let_def)

text \<open>
  C1, amended. For every session on which \<^verbatim>\<open>calculateSessionStats\<close> returns,
  \<^verbatim>\<open>orderPairs.attempted\<close> is the number of pair-ids in the pair table after the event
  pass and \<^verbatim>\<open>orderPairs.succeeded\<close> the number of those whose two legs are marked
  filled. In particular, when two distinct orders are submitted with the symbols
  \<^verbatim>\<open>ETHUSDT\<close> and \<^verbatim>\<open>ETHUSDC\<close> and the same pair-id in their \<^verbatim>\<open>ORDER_SUBMIT\<close> events,
  the pair-id is then linked by a \<^verbatim>\<open>PAIR_LINK\<close> and both orders are then filled, the result is
  attempted = 1 and succeeded = 1; with only the USDT order filled, succeeded = 0.
\<close>

theorem pair_success:
  "(calculateSessionStats J sess = Inr stats \<longrightarrow>
      (\<exists>st om pm. processEvents J (events sess)
                     (newSessionStats\<lparr> runtime := duration sess \<rparr>, Map.empty, [])
                     = Inr (st, om, pm)
         \<and> orderPairs_attempted stats = card (dom (map_of pm))
         \<and> orderPairs_succeeded stats
             = card {k. \<exists>p. map_of pm k = Some p \<and> usdtFilled p \<and> usdcFilled p}))
   \<and> (truthy o1 \<and> truthy o2 \<and> o1 \<noteq> o2 \<and> truthy pid
       \<and> submitOf o1 ''ETHUSDT'' pid s1 \<and> submitOf o2 ''ETHUSDC'' pid s2 \<and> linkOf pid l
       \<and> fillOf o1 ''ETHUSDT'' f1 \<and> fillOf o2 ''ETHUSDC'' f2 \<longrightarrow>
       (\<exists>both. calculateSessionStats J \<lparr> events = [s1, s2, l, f1, f2], duration = d \<rparr> = Inr both
          \<and> orderPairs_attempted both = 1 \<and> orderPairs_succeeded both = 1)
       \<and> (\<exists>one. calculateSessionStats J \<lparr> events = [s1, s2, l, f1], duration = d \<rparr> = Inr one
          \<and> orderPairs_attempted one = 1 \<and> orderPairs_succeeded one = 0))"
proof (intro conjI impI)
  assume run: "calculateSessionStats J sess = Inr stats"
  then obtain st om pm
    where pass: "processEvents J (events sess)
                   (newSessionStats\<lparr> runtime := duration sess \<rparr>, Map.empty, []) = Inr (st, om, pm)"
    by (auto simp: calculateSessionStats_def split: sum.splits)
  from calculateSessionStats_pairs [OF pass] run
  have a: "orderPairs_attempted stats = length pm"
    and s: "orderPairs_succeeded stats = length (filter (\<lambda>kp. bothFilled (snd kp)) pm)"
    and d: "distinct (map fst pm)"
    by auto
  from a distinct_length_dom [OF d]
  have "orderPairs_attempted stats = card (dom (map_of pm))" by simp
  moreover from s distinct_filter_card [OF d, of bothFilled]
  have "orderPairs_succeeded stats
          = card {k. \<exists>p. map_of pm k = Some p \<and> usdtFilled p \<and> usdcFilled p}"
    by (simp add: bothFilled_def)
  ultimately show "\<exists>st om pm. processEvents J (events sess)
                     (newSessionStats\<lparr> runtime := duration sess \<rparr>, Map.empty, [])
                     = Inr (st, om, pm)
         \<and> orderPairs_attempted stats = card (dom (map_of pm))
         \<and> orderPairs_succeeded stats
             = card {k. \<exists>p. map_of pm k = Some p \<and> usdtFilled p \<and> usdcFilled p}"
    using pass by blast
next
  assume h: "truthy o1 \<and> truthy o2 \<and> o1 \<noteq> o2 \<and> truthy pid
       \<and> submitOf o1 ''ETHUSDT'' pid s1 \<and> submitOf o2 ''ETHUSDC'' pid s2 \<and> linkOf pid l
       \<and> fillOf o1 ''ETHUSDT'' f1 \<and> fillOf o2 ''ETHUSDC'' f2"
  then have hs: "truthy o1" "truthy o2" "o1 \<noteq> o2" "truthy pid"
    "submitOf o1 ''ETHUSDT'' pid s1" "submitOf o2 ''ETHUSDC'' pid s2" "linkOf pid l"
    "fillOf o1 ''ETHUSDT'' f1" "fillOf o2 ''ETHUSDC'' f2"
    by simp_all
  have tabs: "(\<exists>st om. processEvents J [s1, s2, l, f1]
                      (newSessionStats\<lparr> runtime := d \<rparr>, Map.empty, [])
                     = Inr (st, om, [(pid, \<lparr> usdtFilled = True, usdcFilled = False \<rparr>)]))
       \<and> (\<exists>st om. processEvents J [s1, s2, l, f1, f2]
                      (newSessionStats\<lparr> runtime := d \<rparr>, Map.empty, [])
                     = Inr (st, om, [(pid, \<lparr> usdtFilled = True, usdcFilled = True \<rparr>)]))"
    by (rule pair_scenario_tables [OF hs])
  from tabs obtain st om where
    "processEvents J (events \<lparr> events = [s1, s2, l, f1, f2], duration = d \<rparr>)
       (newSessionStats\<lparr> runtime := duration \<lparr> events = [s1, s2, l, f1, f2], duration = d \<rparr> \<rparr>,
        Map.empty, [])
     = Inr (st, om, [(pid, \<lparr> usdtFilled = True, usdcFilled = True \<rparr>)])"
    by auto
  from calculateSessionStats_pairs [OF this]
  show "\<exists>both. calculateSessionStats J \<lparr> events = [s1, s2, l, f1, f2], duration = d \<rparr> = Inr both
          \<and> orderPairs_attempted both = 1 \<and> orderPairs_succeeded both = 1"
    by (simp add: bothFilled_def)
  from tabs obtain st om where
    "processEvents J (events \<lparr> events = [s1, s2, l, f1], duration = d \<rparr>)
       (newSessionStats\<lparr> runtime := duration \<lparr> events = [s1, s2, l, f1], duration = d \<rparr> \<rparr>,
        Map.empty, [])
     = Inr (st, om, [(pid, \<lparr> usdtFilled = True, usdcFilled = False \<rparr>)])"
    by auto
  from calculateSessionStats_pairs [OF this]
  show "\<exists>one. calculateSessionStats J \<lparr> events = [s1, s2, l, f1], duration = d \<rparr> = Inr one
          \<and> orderPairs_attempted one = 1 \<and> orderPairs_succeeded one = 0"
    by (simp add: bothFilled_def)
qed

theorem pair_success_witness:
  "truthy (Num (Fin 101)) \<and> truthy (Num (Fin 102)) \<and> Num (Fin 101) \<noteq> Num (Fin 102)
   \<and> truthy (Str ''P1'')
   \<and> submitOf (Num (Fin 101)) ''ETHUSDT'' (Str ''P1'') pairSubmitT
   \<and> submitOf (Num (Fin 102)) ''ETHUSDC'' (Str ''P1'') pairSubmitC
   \<and> linkOf (Str ''P1'') pairLink
   \<and> fillOf (Num (Fin 101)) ''ETHUSDT'' pairFillT \<and> fillOf (Num (Fin 102)) ''ETHUSDC'' pairFillC
   \<and> (\<exists>both st om pm.
         calculateSessionStats exampleHost
           \<lparr> events = [pairSubmitT, pairSubmitC, pairLink, pairFillT, pairFillC], duration = 0 \<rparr>
           = Inr both
         \<and> orderPairs_attempted both = 1 \<and> orderPairs_succeeded both = 1
         \<and> processEvents exampleHost [pairSubmitT, pairSubmitC, pairLink, pairFillT, pairFillC]
              (newSessionStats\<lparr> runtime := 0 \<rparr>, Map.empty, []) = Inr (st, om, pm)
         \<and> card (dom (map_of pm)) = 1)
   \<and> (\<exists>one. calculateSessionStats exampleHost
                \<lparr> events = [pairSubmitT, pairSubmitC, pairLink, pairFillT], duration = 0 \<rparr>
                = Inr one
         \<and> orderPairs_attempted one = 1 \<and> orderPairs_succeeded one = 0)"
proof -
  have h: "truthy (Num (Fin 101)) \<and> truthy (Num (Fin 102)) \<and> Num (Fin 101) \<noteq> Num (Fin 102)
   \<and> truthy (Str ''P1'')
   \<and> submitOf (Num (Fin 101)) ''ETHUSDT'' (Str ''P1'') pairSubmitT
   \<and> submitOf (Num (Fin 102)) ''ETHUSDC'' (Str ''P1'') pairSubmitC
   \<and> linkOf (Str ''P1'') pairLink
   \<and> fillOf (Num (Fin 101)) ''ETHUSDT'' pairFillT \<and> fillOf (Num (Fin 102)) ''ETHUSDC'' pairFillC"
    by (simp add: submitOf_def linkOf_def fillOf_def pairSubmitT_def pairSubmitC_def
        pairLink_def pairFillT_def pairFillC_def example_defs truthyS_def)
  let ?full = "\<lparr> events = [pairSubmitT, pairSubmitC, pairLink, pairFillT, pairFillC],
                 duration = 0 \<rparr>"
  from pair_success [THEN conjunct2, rule_format, OF h, of exampleHost 0]
  obtain both one where
    b: "calculateSessionStats exampleHost ?full = Inr both"
       "orderPairs_attempted both = 1" "orderPairs_succeeded both = 1"
    and o: "calculateSessionStats exampleHost
              \<lparr> events = [pairSubmitT, pairSubmitC, pairLink, pairFillT], duration = 0 \<rparr> = Inr one"
       "orderPairs_attempted one = 1" "orderPairs_succeeded one = 0"
    by blast
  from pair_success [THEN conjunct1, rule_format, OF b(1)] b(2)
  obtain st om pm where
    "processEvents exampleHost [pairSubmitT, pairSubmitC, pairLink, pairFillT, pairFillC]
       (newSessionStats\<lparr> runtime := 0 \<rparr>, Map.empty, []) = Inr (st, om, pm)"
    "card (dom (map_of pm)) = 1"
    by auto
  with h b o show ?thesis by blast
qed

subsection \<open>C2: the aggregate of a concatenation\<close>

text \<open>
  C2, as stated, fails for the quantity totals. The aggregate adds the totals of the
  sessions one after the other, in doubles, and the addition of doubles is not
  associative. With one fill of 0.1 in the only session of \<open>A\<close> and fills of 0.2 and 0.3
  in the two sessions of \<open>B\<close>, the total over the concatenation is
  \<open>(0.1 + 0.2) + 0.3 = 0.6000000000000001\<close>, and the sum of the two totals is
  \<open>0.1 + (0.2 + 0.3) = 0.6\<close>.
\<close>

theorem aggregate_quantity_counterexample:
  "map_sum id fills_totalQty
     (calculateAggregateStats exampleHost
        ([oneFill dbl_0_1] @ [oneFill dbl_0_2, oneFill dbl_0_3]))
     = Inr dbl_0_6000000000000001
   \<and> map_sum id fills_totalQty (calculateAggregateStats exampleHost [oneFill dbl_0_1])
       = Inr dbl_0_1
   \<and> map_sum id fills_totalQty
       (calculateAggregateStats exampleHost [oneFill dbl_0_2, oneFill dbl_0_3])
       = Inr (Fin (1 / 2))
   \<and> fadd dbl_0_1 (Fin (1 / 2)) = dbl_0_6
   \<and> dbl_0_6000000000000001 \<noteq> dbl_0_6"
proof -
  have "map_sum id fills_totalQty
          (calculateAggregateStats exampleHost (map oneFill [dbl_0_1, dbl_0_2, dbl_0_3]))
        = Inr dbl_0_6000000000000001"
    using oneFill_aggregate [of "[dbl_0_1, dbl_0_2, dbl_0_3]"]
    by (auto simp: dbl_truthy dbl_sums simp del: fadd.simps)
  moreover have "map_sum id fills_totalQty
          (calculateAggregateStats exampleHost (map oneFill [dbl_0_1])) = Inr dbl_0_1"
    using oneFill_aggregate [of "[dbl_0_1]"]
    by (auto simp: dbl_truthy dbl_sums simp del: fadd.simps)
  moreover have "map_sum id fills_totalQty
          (calculateAggregateStats exampleHost (map oneFill [dbl_0_2, dbl_0_3]))
        = Inr (Fin (1 / 2))"
    using oneFill_aggregate [of "[dbl_0_2, dbl_0_3]"]
    by (auto simp: dbl_truthy dbl_sums simp del: fadd.simps)
  moreover have "dbl_0_6000000000000001 \<noteq> dbl_0_6"
    by (simp add: dbl_0_6000000000000001_def dbl_0_6_def)
  ultimately show ?thesis by (simp add: dbl_sums del: fadd.simps)
qed

text \<open>
  C2, amended. For all session lists \<open>A\<close> and \<open>B\<close> on which \<^verbatim>\<open>calculateAggregateStats\<close>
  returns, it returns on their concatenation, and there: every counter (and the runtime)
  is the sum of the counters over \<open>A\<close> and over \<open>B\<close>; every sample list (latencies,
  prices, retries) is the list over \<open>A\<close> followed by the list over \<open>B\<close>; the count of
  every fallback reason is the sum of its counts over \<open>A\<close> and over \<open>B\<close>; and every
  quantity total is the total over \<open>A\<close> to which the totals of the sessions of \<open>B\<close> are
  added one after the other, in doubles.
\<close>

theorem aggregate_of_append:
  assumes A: "calculateAggregateStats J A = Inr a"
    and B: "calculateAggregateStats J B = Inr b"
  shows "\<exists>ab sb. calculateAggregateStats J (A @ B) = Inr ab \<and> allSessionStats J B = Inr sb
     \<and> runtime ab = runtime a + runtime b
     \<and> spreadTriggers ab = spreadTriggers a + spreadTriggers b
     \<and> orderPairs_attempted ab = orderPairs_attempted a + orderPairs_attempted b
     \<and> orderPairs_succeeded ab = orderPairs_succeeded a + orderPairs_succeeded b
     \<and> orders_total ab = orders_total a + orders_total b
     \<and> orders_accepted ab = orders_accepted a + orders_accepted b
     \<and> orders_rejected ab = orders_rejected a + orders_rejected b
     \<and> fills_total ab = fills_total a + fills_total b
     \<and> fills_partial ab = fills_partial a + fills_partial b
     \<and> fills_full ab = fills_full a + fills_full b
     \<and> fastChase_events ab = fastChase_events a + fastChase_events b
     \<and> fastChase_successes ab = fastChase_successes a + fastChase_successes b
     \<and> errors_gtxRejections ab = errors_gtxRejections a + errors_gtxRejections b
     \<and> errors_apiErrors ab = errors_apiErrors a + errors_apiErrors b
     \<and> errors_timeouts ab = errors_timeouts a + errors_timeouts b
     \<and> errors_other ab = errors_other a + errors_other b
     \<and> orders_latencies ab = orders_latencies a @ orders_latencies b
     \<and> fills_prices ab = fills_prices a @ fills_prices b
     \<and> fastChase_retries ab = fastChase_retries a @ fastChase_retries b
     \<and> (\<forall>k. map_of (fastChase_fallbackReasons ab) k
              = mergeCount (map_of (fastChase_fallbackReasons a) k)
                  (map_of (fastChase_fallbackReasons b) k))
     \<and> fills_totalQty ab = foldl fadd (fills_totalQty a) (map fills_totalQty sb)
     \<and> fills_usdtQty ab = foldl fadd (fills_usdtQty a) (map fills_usdtQty sb)
     \<and> fills_usdcQty ab = foldl fadd (fills_usdcQty a) (map fills_usdcQty sb)"
proof -
  from A obtain sa where sa: "allSessionStats J A = Inr sa"
    and a: "a = foldl addStats newSessionStats sa"
    by (auto simp: calculateAggregateStats_def aggregateFrom_fold split: sum.splits)
  from B obtain sb where sb: "allSessionStats J B = Inr sb"
    and b: "b = foldl addStats newSessionStats sb"
    by (auto simp: calculateAggregateStats_def aggregateFrom_fold split: sum.splits)
  define ab where "ab = foldl addStats a sb"
  have run: "calculateAggregateStats J (A @ B) = Inr ab"
    by (simp add: calculateAggregateStats_def aggregateFrom_fold allSessionStats_append sa sb
        a ab_def)
  note cb = fold_counters [of newSessionStats sb, folded b]
  note cab = fold_counters [of a sb, folded ab_def]
  have counters:
    "runtime ab = runtime a + runtime b"
    "spreadTriggers ab = spreadTriggers a + spreadTriggers b"
    "orderPairs_attempted ab = orderPairs_attempted a + orderPairs_attempted b"
    "orderPairs_succeeded ab = orderPairs_succeeded a + orderPairs_succeeded b"
    "orders_total ab = orders_total a + orders_total b"
    "orders_accepted ab = orders_accepted a + orders_accepted b"
    "orders_rejected ab = orders_rejected a + orders_rejected b"
    "fills_total ab = fills_total a + fills_total b"
    "fills_partial ab = fills_partial a + fills_partial b"
    "fills_full ab = fills_full a + fills_full b"
    "fastChase_events ab = fastChase_events a + fastChase_events b"
    "fastChase_successes ab = fastChase_successes a + fastChase_successes b"
    "errors_gtxRejections ab = errors_gtxRejections a + errors_gtxRejections b"
    "errors_apiErrors ab = errors_apiErrors a + errors_apiErrors b"
    "errors_timeouts ab = errors_timeouts a + errors_timeouts b"
    "errors_other ab = errors_other a + errors_other b"
    using cb cab by (simp_all add: newSessionStats_def)
  have samples:
    "orders_latencies ab = orders_latencies a @ orders_latencies b"
    "fills_prices ab = fills_prices a @ fills_prices b"
    "fastChase_retries ab = fastChase_retries a @ fastChase_retries b"
    using fold_samples [of newSessionStats sb, folded b] fold_samples [of a sb, folded ab_def]
    by (simp_all add: newSessionStats_def)
  have quantities:
    "fills_totalQty ab = foldl fadd (fills_totalQty a) (map fills_totalQty sb)"
    "fills_usdtQty ab = foldl fadd (fills_usdtQty a) (map fills_usdtQty sb)"
    "fills_usdcQty ab = foldl fadd (fills_usdcQty a) (map fills_usdcQty sb)"
    using fold_quantities [of a sb, folded ab_def] by simp_all
  have reasons: "map_of (fastChase_fallbackReasons ab) k
              = mergeCount (map_of (fastChase_fallbackReasons a) k)
                  (map_of (fastChase_fallbackReasons b) k)" for k
  proof -
    note d = allSessionStats_reasons [OF sb]
    let ?ms = "map (\<lambda>s. map_of (fastChase_fallbackReasons s) k) sb"
    have "map_of (fastChase_fallbackReasons ab) k
            = foldl mergeCount (map_of (fastChase_fallbackReasons a) k) ?ms"
      unfolding ab_def by (rule fold_reasons [OF d])
    also have "\<dots> = mergeCount (map_of (fastChase_fallbackReasons a) k)
                       (foldl mergeCount None ?ms)"
      by (rule foldl_mergeCount)
    also have "foldl mergeCount None ?ms = map_of (fastChase_fallbackReasons b) k"
      unfolding b using fold_reasons [OF d, of newSessionStats k]
      by (simp add: newSessionStats_def)
    finally show ?thesis .
  qed
  from run sb counters samples quantities reasons show ?thesis by blast
qed

theorem aggregate_of_append_witness:
  "\<exists>a b ab. calculateAggregateStats exampleHost [oneFill dbl_0_1] = Inr a
     \<and> calculateAggregateStats exampleHost [oneFill dbl_0_2, oneFill dbl_0_3] = Inr b
     \<and> calculateAggregateStats exampleHost
          ([oneFill dbl_0_1] @ [oneFill dbl_0_2, oneFill dbl_0_3]) = Inr ab
     \<and> fills_total a = 1 \<and> fills_total b = 2 \<and> fills_total ab = 3"
proof -
  from oneFill_aggregate [of "[dbl_0_1]"] obtain a
    where a: "calculateAggregateStats exampleHost [oneFill dbl_0_1] = Inr a" "fills_total a = 1"
    by (auto simp: dbl_truthy)
  from oneFill_aggregate [of "[dbl_0_2, dbl_0_3]"] obtain b
    where b: "calculateAggregateStats exampleHost [oneFill dbl_0_2, oneFill dbl_0_3] = Inr b"
      "fills_total b = 2"
    by (auto simp: dbl_truthy)
  from aggregate_of_append [OF a(1) b(1)] obtain ab
    where "calculateAggregateStats exampleHost
             ([oneFill dbl_0_1] @ [oneFill dbl_0_2, oneFill dbl_0_3]) = Inr ab"
      "fills_total ab = fills_total a + fills_total b"
    by blast
  with a b show ?thesis by auto
qed

subsection \<open>C3: the classification of a response\<close>

text \<open>
  C3, as stated, fails. A response without order-id is not classified: with the message
  \<^verbatim>\<open>Order rejected\<close> and \<^verbatim>\<open>GTX\<close> in its error field it changes no counter. And the status
  field counts only for an order that is registered: a response that names an unregistered
  order and has the status \<^verbatim>\<open>accepted\<close> changes no counter either.
\<close>

theorem response_unclassified_counterexample:
  "processed ''ORDER_RESPONSE'' rejectedNoId \<and> msgIncludes rejectedNoId ''Order rejected''
   \<and> hasGTX rejectedNoId
   \<and> processEvent exampleHost rejectedNoId (newSessionStats, Map.empty, [])
       = Inr (newSessionStats, Map.empty, [])
   \<and> processed ''ORDER_RESPONSE'' statusOnly
   \<and> data statusOnly ''status'' = Some (Str ''accepted'')
   \<and> processEvent exampleHost statusOnly (newSessionStats, Map.empty, [])
       = Inr (newSessionStats, Map.empty, [])"
  by (simp add: rejectedNoId_def statusOnly_def example_defs hasGTX_def reducer_defs Let_def)

text \<open>
  C3, amended. For every processed \<^verbatim>\<open>ORDER_RESPONSE\<close> event that carries an order-id
  (and whose error field, when the response is a rejection, is absent, falsy or a string):
  the response is accepted if its message contains \<^verbatim>\<open>Order accepted\<close> or if the order is
  registered and the status field is \<^verbatim>\<open>accepted\<close> or \<^verbatim>\<open>NEW\<close>; otherwise it is rejected
  if its message contains \<^verbatim>\<open>Order rejected\<close>. \<^verbatim>\<open>orders.accepted\<close> or
  \<^verbatim>\<open>orders.rejected\<close> is incremented accordingly, a registered order gets the status, and
  a rejection increments \<^verbatim>\<open>errors.gtxRejections\<close> when \<^verbatim>\<open>GTX\<close> is in the error field or in
  the message. Nothing else changes but the latency samples. A response without order-id
  changes nothing but the latency samples.
\<close>

theorem response_classified:
  assumes "processed ''ORDER_RESPONSE'' e"
  shows "(data e ''order_id'' = Some oid \<and> truthy oid
          \<and> (rejects om e oid \<longrightarrow> stringish (data e ''error'')) \<longrightarrow>
          processEvent J e (st, om, pm) =
            Inr (st\<lparr> orders_latencies := orders_latencies st @ latencySample e,
                     orders_accepted := orders_accepted st + (if accepts om e oid then 1 else 0),
                     orders_rejected := orders_rejected st + (if rejects om e oid then 1 else 0),
                     errors_gtxRejections := errors_gtxRejections st
                        + (if rejects om e oid \<and> hasGTX e then 1 else 0) \<rparr>,
                 statusAfterResponse om e oid, pm))
       \<and> (\<not> truthyO (data e ''order_id'') \<longrightarrow>
          processEvent J e (st, om, pm) =
            Inr (st\<lparr> orders_latencies := orders_latencies st @ latencySample e \<rparr>, om, pm))"
proof -
  from assms have pe: "processEvent J e (st, om, pm) = onOrderResponse e (st, om, pm)"
    by (simp add: processEvent_def processed_def)
  show ?thesis
    unfolding pe using onOrderResponse_eq [of e oid om st pm] onOrderResponse_no_id [of e st om pm]
    by blast
qed

theorem response_classified_witness:
  "processed ''ORDER_RESPONSE'' gtxResponse
   \<and> data gtxResponse ''order_id'' = Some (Num (Fin 5)) \<and> truthy (Num (Fin 5))
   \<and> rejects Map.empty gtxResponse (Num (Fin 5)) \<and> stringish (data gtxResponse ''error'')
   \<and> processEvent exampleHost gtxResponse (newSessionStats, Map.empty, [])
       = Inr (newSessionStats\<lparr> orders_latencies := [Num (Fin 12)], orders_rejected := 1,
                               errors_gtxRejections := 1 \<rparr>, Map.empty, [])
   \<and> processed ''ORDER_RESPONSE'' rejectedNoId \<and> \<not> truthyO (data rejectedNoId ''order_id'')
   \<and> processEvent exampleHost rejectedNoId (newSessionStats, Map.empty, [])
       = Inr (newSessionStats, Map.empty, [])"
proof -
  have p: "processed ''ORDER_RESPONSE'' gtxResponse"
    and i: "data gtxResponse ''order_id'' = Some (Num (Fin 5))" "truthy (Num (Fin 5))"
    and r: "rejects Map.empty gtxResponse (Num (Fin 5))"
    and s: "stringish (data gtxResponse ''error'')"
    and g: "hasGTX gtxResponse"
    and l: "latencySample gtxResponse = [Num (Fin 12)]"
    by (simp_all add: gtxResponse_def example_defs truthyS_def rejects_def accepts_def
        msgIncludes_def stringish_def hasGTX_def latencySample_def)
  have p': "processed ''ORDER_RESPONSE'' rejectedNoId"
    and n: "\<not> truthyO (data rejectedNoId ''order_id'')"
    and l': "latencySample rejectedNoId = []"
    by (simp_all add: rejectedNoId_def example_defs truthyS_def truthyO_def latencySample_def)
  from r have na: "\<not> accepts Map.empty gtxResponse (Num (Fin 5))"
    by (simp add: rejects_def)
  have "processEvent exampleHost gtxResponse (newSessionStats, Map.empty, [])
       = Inr (newSessionStats\<lparr> orders_latencies := [Num (Fin 12)], orders_rejected := 1,
                               errors_gtxRejections := 1 \<rparr>, Map.empty, [])"
    using response_classified [OF p, of "Num (Fin 5)" Map.empty exampleHost newSessionStats "[]"]
      i r s g l na
    by (simp add: statusAfterResponse_def newSessionStats_def)
  moreover have "processEvent exampleHost rejectedNoId (newSessionStats, Map.empty, [])
       = Inr (newSessionStats, Map.empty, [])"
    using response_classified [OF p', of undefined Map.empty exampleHost newSessionStats "[]"] n l'
    by (simp add: newSessionStats_def)
  ultimately show ?thesis using p i r s p' n by blast
qed

subsection \<open>C4: the error classification of other events\<close>

text \<open>
  C4, as stated, fails: an event of level \<^verbatim>\<open>ERROR\<close> without category is skipped by the first
  line of \<^verbatim>\<open>processEvent\<close>, also when its message contains \<^verbatim>\<open>timeout\<close>; no error
  counter changes.
\<close>

theorem error_without_category_counterexample:
  "level plainError = ''ERROR'' \<and> unhandled plainError \<and> category plainError = None
   \<and> msgIncludes plainError ''timeout''
   \<and> processEvent exampleHost plainError (newSessionStats, Map.empty, [])
       = Inr (newSessionStats, Map.empty, [])"
  by (simp add: plainError_def unhandled_def msgIncludes_def processEvent_def truthyS_def)

text \<open>
  C4, amended. For every event of level \<^verbatim>\<open>ERROR\<close> whose subcategory is none of the handled
  ones: if the event carries a category, exactly one error counter is incremented, the
  timeout counter if the message contains \<^verbatim>\<open>timeout\<close>, else the API-error counter if
  it contains \<^verbatim>\<open>API\<close>, else the counter of other errors, and nothing else changes; if
  the event carries no category, nothing changes.
\<close>

theorem other_error_classified:
  assumes "level e = ''ERROR''" and "unhandled e"
  shows "processEvent J e (st, om, pm) =
           Inr (if truthyS (category e)
                then (if msgIncludes e ''timeout''
                      then st\<lparr> errors_timeouts := errors_timeouts st + 1 \<rparr>
                      else if msgIncludes e ''API''
                      then st\<lparr> errors_apiErrors := errors_apiErrors st + 1 \<rparr>
                      else st\<lparr> errors_other := errors_other st + 1 \<rparr>)
                else st, om, pm)"
proof (cases "truthyS (category e)")
  case True
  with assms show ?thesis
    by (simp add: processEvent_unhandled onOther_def)
next
  case False
  then show ?thesis by (simp add: processEvent_def)
qed

theorem other_error_classified_witness:
  "level apiError = ''ERROR'' \<and> unhandled apiError
   \<and> processEvent exampleHost apiError (newSessionStats, Map.empty, [])
       = Inr (newSessionStats\<lparr> errors_apiErrors := 1 \<rparr>, Map.empty, [])"
proof -
  have l: "level apiError = ''ERROR''" and u: "unhandled apiError"
    by (simp_all add: apiError_def unhandled_def)
  from other_error_classified [OF l u, of exampleHost newSessionStats Map.empty "[]"] l u
  show ?thesis
    by (simp add: apiError_def truthyS_def msgIncludes_def newSessionStats_def)
qed

subsection \<open>C5: a response takes the earliest pending submission of its symbol\<close>

text \<open>
  C5, as stated, fails: a response without order-id is skipped before the matching. It
  makes no row and consumes no submission. In a session with a submission at time 1, a
  response without order-id at time 2 and a response with order-id 9 at time 3, all of
  the same symbol, the only row is the one of order 9, and it has the submission of time 1.
\<close>

theorem response_without_id_counterexample:
  "map (\<lambda>r. (orderId r, submitTime r)) (extractOrderDetails exampleHost [noIdSession])
     = [(Some (Num (Fin 9)), 1)]
   \<and> map (\<lambda>r. (orderId r, submitTime r)) (sessionRows exampleHost noIdSession)
     = [(Some (Num (Fin 9)), 1)]"
  by (simp add: noIdSession_def extract_examples extract_defs)

text \<open>
  C5, amended. In both variants of the order-detail extraction: an \<^verbatim>\<open>ORDER_SUBMIT\<close> event
  is appended to the pending queue with its timestamp and symbol. An \<^verbatim>\<open>ORDER_RESPONSE\<close>
  event that carries an order-id makes one row; it is matched to the earliest pending
  submission with the same symbol, which is removed from the queue and gives the row its
  time, side, quantity and price; when no pending submission has that symbol the queue is
  unchanged and the row has the timestamp of the response and no side, quantity and price.
  An \<^verbatim>\<open>ORDER_RESPONSE\<close> event without order-id makes no row and leaves the queue unchanged.
\<close>

theorem response_takes_earliest_submit:
  "(subcategory e = Some ''ORDER_SUBMIT'' \<longrightarrow>
      detailsStep J e (orders, om, ps) = (orders, om, ps @ [newPending e])
      \<and> rowsStep J e (rows, bm, ps) = (rows, bm, ps @ [newPending e])
      \<and> p_timestamp (newPending e) = timestamp e \<and> p_symbol (newPending e) = data e ''symbol'')
   \<and> (idResponse e \<longrightarrow>
      (\<exists>row ps'.
          (\<exists>om'. detailsStep J e (orders, om, ps) = (orders @ [row], om', ps'))
        \<and> (\<exists>bm'. rowsStep J e (rows, bm, ps) = (rows @ [row], bm', ps'))
        \<and> orderId row = data e ''order_id''
        \<and> ((\<forall>s \<in> set ps. \<not> matchesSymbol e s) \<longrightarrow>
              ps' = ps \<and> submitTime row = timestamp e
              \<and> side row = None \<and> quantity row = None \<and> price row = None)
        \<and> (\<forall>i < length ps.
              matchesSymbol e (ps ! i) \<and> (\<forall>j < i. \<not> matchesSymbol e (ps ! j)) \<longrightarrow>
              ps' = take i ps @ drop (Suc i) ps
              \<and> submitTime row = p_timestamp (ps ! i) \<and> side row = p_side (ps ! i)
              \<and> quantity row = p_quantity (ps ! i) \<and> price row = p_price (ps ! i))))
   \<and> (subcategory e = Some ''ORDER_RESPONSE'' \<and> \<not> truthyO (data e ''order_id'') \<longrightarrow>
      detailsStep J e (orders, om, ps) = (orders, om, ps)
      \<and> rowsStep J e (rows, bm, ps) = (rows, bm, ps))"
proof (intro conjI impI)
  assume "subcategory e = Some ''ORDER_SUBMIT''"
  then show "detailsStep J e (orders, om, ps) = (orders, om, ps @ [newPending e])"
    and "rowsStep J e (rows, bm, ps) = (rows, bm, ps @ [newPending e])"
    by (simp_all add: detailsStep_def rowsStep_def)
  show "p_timestamp (newPending e) = timestamp e" "p_symbol (newPending e) = data e ''symbol''"
    by (simp_all add: newPending_def)
next
  assume "subcategory e = Some ''ORDER_RESPONSE'' \<and> \<not> truthyO (data e ''order_id'')"
  then show "detailsStep J e (orders, om, ps) = (orders, om, ps)"
    and "rowsStep J e (rows, bm, ps) = (rows, bm, ps)"
    by (auto simp: detailsStep_def rowsStep_def truthyO_def split: option.splits)
next
  assume ir: "idResponse e"
  then obtain oid where oid: "data e ''order_id'' = Some oid" and t: "truthy oid"
    and sub: "subcategory e = Some ''ORDER_RESPONSE''"
    by (auto simp: idResponse_def truthyO_def split: option.splits)
  obtain submitInfo ps' where ts: "takeSubmit (data e ''symbol'') ps = (submitInfo, ps')"
    by (cases "takeSubmit (data e ''symbol'') ps")
  let ?row = "responseDetail e oid submitInfo"
  have d: "\<exists>om'. detailsStep J e (orders, om, ps) = (orders @ [?row], om', ps')"
    by (simp add: detailsStep_def sub oid t ts)
  have r: "\<exists>bm'. rowsStep J e (rows, bm, ps) = (rows @ [?row], bm', ps')"
    by (simp add: rowsStep_def sub oid t ts)
  have o: "orderId ?row = data e ''order_id''"
    by (simp add: responseDetail_def oid)
  have n: "ps' = ps \<and> submitTime ?row = timestamp e
          \<and> side ?row = None \<and> quantity ?row = None \<and> price ?row = None"
    if "\<forall>s \<in> set ps. \<not> matchesSymbol e s"
    using takeSubmit_none [OF that] ts by (simp add: responseDetail_def)
  have f: "ps' = take i ps @ drop (Suc i) ps
          \<and> submitTime ?row = p_timestamp (ps ! i) \<and> side ?row = p_side (ps ! i)
          \<and> quantity ?row = p_quantity (ps ! i) \<and> price ?row = p_price (ps ! i)"
    if "i < length ps" "matchesSymbol e (ps ! i)" "\<forall>j < i. \<not> matchesSymbol e (ps ! j)" for i
    using takeSubmit_first [OF that] ts by (simp add: responseDetail_def)
  from d r o n f
  show "\<exists>row ps'.
          (\<exists>om'. detailsStep J e (orders, om, ps) = (orders @ [row], om', ps'))
        \<and> (\<exists>bm'. rowsStep J e (rows, bm, ps) = (rows @ [row], bm', ps'))
        \<and> orderId row = data e ''order_id''
        \<and> ((\<forall>s \<in> set ps. \<not> matchesSymbol e s) \<longrightarrow>
              ps' = ps \<and> submitTime row = timestamp e
              \<and> side row = None \<and> quantity row = None \<and> price row = None)
        \<and> (\<forall>i < length ps.
              matchesSymbol e (ps ! i) \<and> (\<forall>j < i. \<not> matchesSymbol e (ps ! j)) \<longrightarrow>
              ps' = take i ps @ drop (Suc i) ps
              \<and> submitTime row = p_timestamp (ps ! i) \<and> side row = p_side (ps ! i)
              \<and> quantity row = p_quantity (ps ! i) \<and> price row = p_price (ps ! i))"
    by blast
qed

theorem response_takes_earliest_submit_witness:
  "idResponse (acceptedAt 4 (Num (Fin 9)) ''ETHUSDT'')
   \<and> (\<exists>row om' bm'.
         detailsStep exampleHost (acceptedAt 4 (Num (Fin 9)) ''ETHUSDT'') ([], Map.empty, queue3)
           = ([row], om', [newPending (submitAt 1 ''ETHUSDC''), newPending (submitAt 3 ''ETHUSDT'')])
       \<and> rowsStep exampleHost (acceptedAt 4 (Num (Fin 9)) ''ETHUSDT'') ([], Map.empty, queue3)
           = ([row], bm', [newPending (submitAt 1 ''ETHUSDC''), newPending (submitAt 3 ''ETHUSDT'')])
       \<and> submitTime row = 2 \<and> side row = Some (Str ''BUY''))
   \<and> subcategory (submitAt 1 ''ETHUSDT'') = Some ''ORDER_SUBMIT''
   \<and> detailsStep exampleHost (submitAt 1 ''ETHUSDT'') ([], Map.empty, [])
       = ([], Map.empty, [newPending (submitAt 1 ''ETHUSDT'')])
   \<and> subcategory (acceptedNoIdAt 2 ''ETHUSDT'') = Some ''ORDER_RESPONSE''
   \<and> \<not> truthyO (data (acceptedNoIdAt 2 ''ETHUSDT'') ''order_id'')
   \<and> rowsStep exampleHost (acceptedNoIdAt 2 ''ETHUSDT'') ([], Map.empty, queue3)
       = ([], Map.empty, queue3)"
proof -
  let ?e = "acceptedAt 4 (Num (Fin 9)) ''ETHUSDT''"
  have ir: "idResponse ?e"
    by (simp add: idResponse_def extract_examples truthyO_def)
  have m: "matchesSymbol ?e (queue3 ! 1)" "\<forall>j < 1. \<not> matchesSymbol ?e (queue3 ! j)"
    "(1::nat) < length queue3"
    "take 1 queue3 @ drop (Suc 1) queue3
       = [newPending (submitAt 1 ''ETHUSDC''), newPending (submitAt 3 ''ETHUSDT'')]"
    "p_timestamp (queue3 ! 1) = 2" "p_side (queue3 ! 1) = Some (Str ''BUY'')"
    by (simp_all add: matchesSymbol_def queue3_def extract_examples newPending_def strictEq_def)
  from response_takes_earliest_submit
         [of ?e exampleHost "[]" Map.empty queue3 "[]" Map.empty, THEN conjunct2, THEN conjunct1,
          rule_format, OF ir]
  obtain row ps' om' bm' where
    d: "detailsStep exampleHost ?e ([], Map.empty, queue3) = ([] @ [row], om', ps')"
    and r: "rowsStep exampleHost ?e ([], Map.empty, queue3) = ([] @ [row], bm', ps')"
    and f: "\<forall>i < length queue3.
              matchesSymbol ?e (queue3 ! i) \<and> (\<forall>j < i. \<not> matchesSymbol ?e (queue3 ! j)) \<longrightarrow>
              ps' = take i queue3 @ drop (Suc i) queue3
              \<and> submitTime row = p_timestamp (queue3 ! i) \<and> side row = p_side (queue3 ! i)
              \<and> quantity row = p_quantity (queue3 ! i) \<and> price row = p_price (queue3 ! i)"
    by blast
  from f [rule_format, of 1] m
  have "ps' = [newPending (submitAt 1 ''ETHUSDC''), newPending (submitAt 3 ''ETHUSDT'')]"
    "submitTime row = 2" "side row = Some (Str ''BUY'')"
    by simp_all
  with d r have one: "\<exists>row om' bm'.
         detailsStep exampleHost ?e ([], Map.empty, queue3)
           = ([row], om', [newPending (submitAt 1 ''ETHUSDC''), newPending (submitAt 3 ''ETHUSDT'')])
       \<and> rowsStep exampleHost ?e ([], Map.empty, queue3)
           = ([row], bm', [newPending (submitAt 1 ''ETHUSDC''), newPending (submitAt 3 ''ETHUSDT'')])
       \<and> submitTime row = 2 \<and> side row = Some (Str ''BUY'')"
    by auto
  have s: "subcategory (submitAt 1 ''ETHUSDT'') = Some ''ORDER_SUBMIT''"
    and n: "subcategory (acceptedNoIdAt 2 ''ETHUSDT'') = Some ''ORDER_RESPONSE''
            \<and> \<not> truthyO (data (acceptedNoIdAt 2 ''ETHUSDT'') ''order_id'')"
    by (simp_all add: extract_examples truthyO_def)
  from response_takes_earliest_submit
         [of "submitAt 1 ''ETHUSDT''" exampleHost "[]" Map.empty "[]" "[]" Map.empty,
          THEN conjunct1, rule_format, OF s]
  have two: "detailsStep exampleHost (submitAt 1 ''ETHUSDT'') ([], Map.empty, [])
       = ([], Map.empty, [newPending (submitAt 1 ''ETHUSDT'')])"
    by simp
  from response_takes_earliest_submit
         [of "acceptedNoIdAt 2 ''ETHUSDT''" exampleHost "[]" Map.empty queue3 "[]" Map.empty,
          THEN conjunct2, THEN conjunct2, rule_format, OF n]
  have three: "rowsStep exampleHost (acceptedNoIdAt 2 ''ETHUSDT'') ([], Map.empty, queue3)
       = ([], Map.empty, queue3)"
    by simp
  from ir one s two n three show ?thesis by blast
qed

subsection \<open>C6: a fill without matched order\<close>




subsection \<open>C7: GTX rejections are counted by responses and by order states\<close>

text \<open>
  C7, as stated, fails in its second sentence. A response without order-id is not
  classified (the guard \<^verbatim>\<open>if (event.data.order_id)\<close>): a GTX-marked rejection without
  order-id followed by an \<^verbatim>\<open>ORDER_STATE\<close> event with \<^verbatim>\<open>GTX rejected\<close> counts one GTX
  rejection, not two, and no rejected order. And on a rejection whose error field is a
  number the call of \<^verbatim>\<open>includes\<close> raises a \<^verbatim>\<open>TypeError\<close>, so nothing is counted.
\<close>

theorem gtx_response_without_id_counterexample:
  "processed ''ORDER_RESPONSE'' rejectedNoId \<and> msgIncludes rejectedNoId ''Order rejected''
   \<and> hasGTX rejectedNoId
   \<and> processed ''ORDER_STATE'' gtxState \<and> msgIncludes gtxState ''GTX rejected''
   \<and> processEvents exampleHost [rejectedNoId, gtxState] (newSessionStats, Map.empty, [])
       = Inr (newSessionStats\<lparr> errors_gtxRejections := 1 \<rparr>, Map.empty, [])
   \<and> orders_rejected (newSessionStats\<lparr> errors_gtxRejections := 1 \<rparr>) = 0
   \<and> processed ''ORDER_RESPONSE'' numericErrorResponse
   \<and> msgIncludes numericErrorResponse ''Order rejected'' \<and> hasGTX numericErrorResponse
   \<and> processEvents exampleHost [numericErrorResponse, gtxState]
        (newSessionStats, Map.empty, []) = Inl TypeError"
  by (simp add: rejectedNoId_def gtxState_def numericErrorResponse_def example_defs hasGTX_def
      reducer_defs newSessionStats_def Let_def)

text \<open>
  C7, amended. Every processed \<^verbatim>\<open>ORDER_STATE\<close> event whose message contains
  \<^verbatim>\<open>GTX rejected\<close> increments \<^verbatim>\<open>errors.gtxRejections\<close> and changes nothing else,
  whatever the state of the reducer. So a GTX-marked rejection by an \<^verbatim>\<open>ORDER_RESPONSE\<close>
  that carries an order-id (and whose error field is absent, falsy or a string) and such
  an \<^verbatim>\<open>ORDER_STATE\<close> event, one after the other in either order, count two GTX
  rejections, and one rejected order.
\<close>

theorem gtx_rejection_counted_twice:
  "(processed ''ORDER_STATE'' e \<and> msgIncludes e ''GTX rejected'' \<longrightarrow>
      processEvent J e (st, om, pm)
        = Inr (st\<lparr> errors_gtxRejections := errors_gtxRejections st + 1 \<rparr>, om, pm))
   \<and> (processed ''ORDER_RESPONSE'' r \<and> data r ''order_id'' = Some oid \<and> truthy oid
       \<and> rejects om r oid \<and> stringish (data r ''error'') \<and> hasGTX r
       \<and> processed ''ORDER_STATE'' e \<and> msgIncludes e ''GTX rejected'' \<longrightarrow>
      (\<exists>st' om'. processEvents J [r, e] (st, om, pm) = Inr (st', om', pm)
         \<and> errors_gtxRejections st' = errors_gtxRejections st + 2
         \<and> orders_rejected st' = orders_rejected st + 1)
      \<and> (\<exists>st' om'. processEvents J [e, r] (st, om, pm) = Inr (st', om', pm)
         \<and> errors_gtxRejections st' = errors_gtxRejections st + 2
         \<and> orders_rejected st' = orders_rejected st + 1))"
proof (intro conjI impI)
  assume "processed ''ORDER_STATE'' e \<and> msgIncludes e ''GTX rejected''"
  then show "processEvent J e (st, om, pm)
        = Inr (st\<lparr> errors_gtxRejections := errors_gtxRejections st + 1 \<rparr>, om, pm)"
    by (simp add: processEvent_def processed_def)
next
  assume a: "processed ''ORDER_RESPONSE'' r \<and> data r ''order_id'' = Some oid \<and> truthy oid
       \<and> rejects om r oid \<and> stringish (data r ''error'') \<and> hasGTX r
       \<and> processed ''ORDER_STATE'' e \<and> msgIncludes e ''GTX rejected''"
  then have na: "\<not> accepts om r oid" by (simp add: rejects_def)
  from a have pr: "processEvent J r (s, om, pm) = onOrderResponse r (s, om, pm)" for s
    by (simp add: processEvent_def processed_def)
  from a na onOrderResponse_eq [of r oid om _ pm]
  have first: "processEvent J r (s, om, pm) =
      Inr (s\<lparr> orders_latencies := orders_latencies s @ latencySample r,
               orders_accepted := orders_accepted s,
               orders_rejected := orders_rejected s + 1,
               errors_gtxRejections := errors_gtxRejections s + 1 \<rparr>,
           statusAfterResponse om r oid, pm)" for s
    by (simp add: pr)
  from a have second: "\<And>s m. processEvent J e (s, m, pm)
        = Inr (s\<lparr> errors_gtxRejections := errors_gtxRejections s + 1 \<rparr>, m, pm)"
    by (simp add: processEvent_def processed_def)
  show "\<exists>st' om'. processEvents J [r, e] (st, om, pm) = Inr (st', om', pm)
         \<and> errors_gtxRejections st' = errors_gtxRejections st + 2
         \<and> orders_rejected st' = orders_rejected st + 1"
    by (simp add: first second)
  show "\<exists>st' om'. processEvents J [e, r] (st, om, pm) = Inr (st', om', pm)
         \<and> errors_gtxRejections st' = errors_gtxRejections st + 2
         \<and> orders_rejected st' = orders_rejected st + 1"
    by (simp add: first second)
qed

theorem gtx_rejection_counted_twice_witness:
  "processed ''ORDER_STATE'' gtxState \<and> msgIncludes gtxState ''GTX rejected''
   \<and> processEvent exampleHost gtxState (newSessionStats, Map.empty, [])
       = Inr (newSessionStats\<lparr> errors_gtxRejections := 1 \<rparr>, Map.empty, [])
   \<and> processed ''ORDER_RESPONSE'' gtxResponse
   \<and> data gtxResponse ''order_id'' = Some (Num (Fin 5)) \<and> truthy (Num (Fin 5))
   \<and> rejects Map.empty gtxResponse (Num (Fin 5)) \<and> stringish (data gtxResponse ''error'')
   \<and> hasGTX gtxResponse
   \<and> (\<exists>st' om'. processEvents exampleHost [gtxResponse, gtxState]
                    (newSessionStats, Map.empty, []) = Inr (st', om', [])
        \<and> errors_gtxRejections st' = 2 \<and> orders_rejected st' = 1)
   \<and> (\<exists>st' om'. processEvents exampleHost [gtxState, gtxResponse]
                    (newSessionStats, Map.empty, []) = Inr (st', om', [])
        \<and> errors_gtxRejections st' = 2 \<and> orders_rejected st' = 1)"
proof -
  have h: "processed ''ORDER_STATE'' gtxState \<and> msgIncludes gtxState ''GTX rejected''"
    by (simp add: gtxState_def example_defs truthyS_def msgIncludes_def)
  have k: "processed ''ORDER_RESPONSE'' gtxResponse
       \<and> data gtxResponse ''order_id'' = Some (Num (Fin 5)) \<and> truthy (Num (Fin 5))
       \<and> rejects Map.empty gtxResponse (Num (Fin 5)) \<and> stringish (data gtxResponse ''error'')
       \<and> hasGTX gtxResponse"
    by (simp add: gtxResponse_def example_defs truthyS_def rejects_def accepts_def
        msgIncludes_def stringish_def hasGTX_def)
  note inst = gtx_rejection_counted_twice
    [of gtxState exampleHost newSessionStats Map.empty "[]" gtxResponse "Num (Fin 5)"]
  from inst [THEN conjunct1] h
  have one: "processEvent exampleHost gtxState (newSessionStats, Map.empty, [])
       = Inr (newSessionStats\<lparr> errors_gtxRejections := 1 \<rparr>, Map.empty, [])"
    by (simp add: newSessionStats_def)
  have zero: "errors_gtxRejections newSessionStats = 0" "orders_rejected newSessionStats = 0"
    by (simp_all add: newSessionStats_def)
  from inst [THEN conjunct2] h k
  have both: "(\<exists>st' om'. processEvents exampleHost [gtxResponse, gtxState]
                    (newSessionStats, Map.empty, []) = Inr (st', om', [])
        \<and> errors_gtxRejections st' = errors_gtxRejections newSessionStats + 2
        \<and> orders_rejected st' = orders_rejected newSessionStats + 1)
     \<and> (\<exists>st' om'. processEvents exampleHost [gtxState, gtxResponse]
                    (newSessionStats, Map.empty, []) = Inr (st', om', [])
        \<and> errors_gtxRejections st' = errors_gtxRejections newSessionStats + 2
        \<and> orders_rejected st' = orders_rejected newSessionStats + 1)"
    by blast
  from both [THEN conjunct1] obtain st' om' where
    run: "processEvents exampleHost [gtxResponse, gtxState] (newSessionStats, Map.empty, [])
            = Inr (st', om', [])"
    and "errors_gtxRejections st' = errors_gtxRejections newSessionStats + 2"
    and "orders_rejected st' = orders_rejected newSessionStats + 1"
    by blast
  then have "errors_gtxRejections st' = 2" "orders_rejected st' = 1"
    by (simp_all add: zero)
  with run have two: "\<exists>st' om'. processEvents exampleHost [gtxResponse, gtxState]
                    (newSessionStats, Map.empty, []) = Inr (st', om', [])
        \<and> errors_gtxRejections st' = 2 \<and> orders_rejected st' = 1"
    by blast
  from both [THEN conjunct2] obtain st2 om2 where
    run2: "processEvents exampleHost [gtxState, gtxResponse] (newSessionStats, Map.empty, [])
            = Inr (st2, om2, [])"
    and "errors_gtxRejections st2 = errors_gtxRejections newSessionStats + 2"
    and "orders_rejected st2 = orders_rejected newSessionStats + 1"
    by blast
  then have "errors_gtxRejections st2 = 2" "orders_rejected st2 = 1"
    by (simp_all add: zero)
  with run2 have two': "\<exists>st' om'. processEvents exampleHost [gtxState, gtxResponse]
                    (newSessionStats, Map.empty, []) = Inr (st', om', [])
        \<and> errors_gtxRejections st' = 2 \<and> orders_rejected st' = 1"
    by blast
  from h k one two two' show ?thesis by blast
qed

subsection \<open>C8: the quantity of a fill\<close>

text \<open>
  C8. For every processed \<^verbatim>\<open>ORDER_FILL\<close> event on which the reducer returns, the quantity
  added to \<^verbatim>\<open>fills.totalQty\<close> is \<^verbatim>\<open>parseFloat\<close> of the field \<^verbatim>\<open>last_filled\<close> if that is
  a nonzero number, else of the field \<^verbatim>\<open>filled\<close> if that is a nonzero number, else of
  the field \<^verbatim>\<open>qty\<close> if that is a nonzero number, else 0.
\<close>

theorem fill_quantity_fallback:
  assumes "processed ''ORDER_FILL'' e"
    and "processEvent J e (st, om, pm) = Inr (st', om', pm')"
  shows "fills_totalQty st' =
           fadd (fills_totalQty st)
             (if nonzeroNumber (parseFloat J (data e ''last_filled''))
              then parseFloat J (data e ''last_filled'')
              else if nonzeroNumber (parseFloat J (data e ''filled''))
              then parseFloat J (data e ''filled'')
              else if nonzeroNumber (parseFloat J (data e ''qty''))
              then parseFloat J (data e ''qty'')
              else Fin 0)"
proof -
  from assms have "onOrderFill J e (st, om, pm) = Inr (st', om', pm')"
    by (simp add: processEvent_def processed_def)
  then have fc: "fillCounters J e st = Inr st'"
    by (auto simp: onOrderFill_def split: sum.splits)
  then obtain s where "fillSymbol e = Str s"
    by (cases "fillSymbol e") (auto simp: fillCounters_def fillBucket_def Let_def)
  from fc fillCounters_Str [OF this, of J st]
  have "fills_totalQty st' = fadd (fills_totalQty st) (fillQty J e)"
    by auto
  then show ?thesis
    by (simp add: fillQty_def numOr_def truthyNum_iff)
qed

theorem fill_quantity_fallback_witness:
  "processed ''ORDER_FILL'' fallbackFill
   \<and> (\<exists>st' om' pm'. processEvent exampleHost fallbackFill (newSessionStats, Map.empty, [])
                      = Inr (st', om', pm')
        \<and> fills_totalQty st' = fadd (Fin 0) (Fin 3))"
proof -
  have p: "processed ''ORDER_FILL'' fallbackFill"
    by (simp add: fallbackFill_def example_defs truthyS_def)
  obtain st' om' pm' where
    r: "processEvent exampleHost fallbackFill (newSessionStats, Map.empty, []) = Inr (st', om', pm')"
    by (simp add: fallbackFill_def example_defs reducer_defs Let_def)
  from fill_quantity_fallback [OF p r]
  have "fills_totalQty st' = fadd (Fin 0) (Fin 3)"
    by (simp add: fallbackFill_def example_defs parseFloat_def nonzeroNumber_def
        newSessionStats_def)
  with p r show ?thesis by blast
qed

subsection \<open>C9: fill rows and accepted rows\<close>

text \<open>
  C9, as stated, fails. In the per-session variant a fill removes one accepted row of its
  order-id, the earliest, not every one: after two accepted responses for order 5 and one
  fill, an accepted row of order 5 is still there beside the fill row. And a response that
  comes after the fill of its order adds an accepted row that no later event removes. In
  the cross-session variant an order-id has one row per response, not a single row: after
  the same two responses and the fill there are two rows of order 5, and the fill has
  changed the later one only.
\<close>

theorem accepted_row_remains_counterexample:
  "map (\<lambda>r. (orderId r, status r)) (sessionRows exampleHost dupAcceptedSession)
     = [(Some (Num (Fin 5)), ''accepted''), (Some (Num (Fin 5)), ''filled'')]
   \<and> map (\<lambda>r. (orderId r, status r)) (sessionRows exampleHost lateResponseSession)
     = [(Some (Num (Fin 5)), ''filled''), (Some (Num (Fin 5)), ''accepted'')]
   \<and> map (\<lambda>r. (orderId r, status r)) (extractOrderDetails exampleHost [dupAcceptedSession])
     = [(Some (Num (Fin 5)), ''accepted''), (Some (Num (Fin 5)), ''filled'')]"
  by (simp add: dupAcceptedSession_def lateResponseSession_def extract_examples extract_defs
      Let_def)

text \<open>
  C9, amended. In the per-session variant, an \<^verbatim>\<open>ORDER_FILL\<close> event appends a fill row for
  its order-id and removes the earliest row of that order-id with status \<^verbatim>\<open>accepted\<close>,
  if there is one, and no other row. So, in a session where no response for an order-id
  comes after another response or a fill of that order-id, after the full pass no
  order-id with a fill row has a row with status \<^verbatim>\<open>accepted\<close>. In the cross-session
  variant an \<^verbatim>\<open>ORDER_FILL\<close> event whose order-id is registered changes one row in place,
  the row the order table holds for that order-id: its fill time becomes the time of the
  event, its status \<^verbatim>\<open>partial\<close> if the message contains \<^verbatim>\<open>Partial fill\<close> and \<^verbatim>\<open>filled\<close>
  otherwise, its filled and accumulated quantities the parsed fields \<^verbatim>\<open>last_filled\<close> and
  \<^verbatim>\<open>accumulated\<close> where the event has them (0 for a parse that is \<^verbatim>\<open>NaN\<close> or 0); every
  other field and every other row is unchanged, and a fill whose order-id is absent, falsy
  or not registered changes nothing. Throughout the pass the order table maps an order-id
  to the position of the last row of that order-id. The number of rows does not grow with
  fills: the result has one row per response with an order-id.
\<close>

theorem fill_replaces_accepted_row:
  "(subcategory e = Some ''ORDER_FILL'' \<longrightarrow>
      (\<exists>rows' f. rowsStep J e (rows, bm, ps) = (rows' @ [f], bm, ps)
         \<and> orderId f = data e ''order_id'' \<and> isFillRow f \<and> fillTime f = Some (timestamp e)
         \<and> ((\<forall>r \<in> set rows. \<not> acceptedRowOf (data e ''order_id'') r) \<longrightarrow> rows' = rows)
         \<and> (\<forall>i < length rows.
               acceptedRowOf (data e ''order_id'') (rows ! i)
               \<and> (\<forall>j < i. \<not> acceptedRowOf (data e ''order_id'') (rows ! j)) \<longrightarrow>
               rows' = take i rows @ drop (Suc i) rows))
      \<and> (\<exists>orders'. detailsStep J e (orders, om, ps) = (orders', om, ps)
            \<and> length orders' = length orders \<and> map orderId orders' = map orderId orders
            \<and> (unmatched om e \<longrightarrow> orders' = orders)
            \<and> (\<forall>oid i. data e ''order_id'' = Some oid \<and> truthy oid \<and> om oid = Some i \<longrightarrow>
                  orders' = orders[i := (orders ! i)
                    \<lparr> fillTime := Some (timestamp e),
                      filledQty :=
                        (if data e ''last_filled'' = None then filledQty (orders ! i)
                         else Some (if nonzeroNumber (parseFloat J (data e ''last_filled''))
                                    then parseFloat J (data e ''last_filled'') else Fin 0)),
                      accumulated :=
                        (if data e ''accumulated'' = None then accumulated (orders ! i)
                         else Some (if nonzeroNumber (parseFloat J (data e ''accumulated''))
                                    then parseFloat J (data e ''accumulated'') else Fin 0)),
                      status := (if msgIncludes e ''Partial fill'' then ''partial''
                                 else ''filled'') \<rparr>])))
   \<and> (foldl (\<lambda>s e. detailsStep J e s) ([], Map.empty, []) es = (rs, tm, qs)
        \<and> tm k = Some n \<longrightarrow>
      n < length rs \<and> orderId (rs ! n) = Some k
      \<and> (\<forall>j < length rs. n < j \<longrightarrow> orderId (rs ! j) \<noteq> Some k))
   \<and> length (extractOrderDetails J sessions)
       = length (filter idResponse (concat (map events sessions)))
   \<and> (orderly (events sess) \<longrightarrow>
        (\<forall>f \<in> set (sessionRows J sess). \<forall>r \<in> set (sessionRows J sess).
           isFillRow f \<and> orderId r = orderId f \<longrightarrow> status r \<noteq> ''accepted''))"
proof (intro conjI impI)
  assume sub: "subcategory e = Some ''ORDER_FILL''"
  let ?P = "acceptedRowOf (data e ''order_id'')"
  let ?R = "case findIndex ?P rows of None \<Rightarrow> rows | Some i \<Rightarrow> take i rows @ drop (Suc i) rows"
  let ?f = "fillRow J e (case data e ''order_id'' of None \<Rightarrow> None | Some k \<Rightarrow> bm k)"
  have step: "rowsStep J e (rows, bm, ps) = (?R @ [?f], bm, ps)"
    by (rule rowsStep_fill [OF sub])
  have none: "?R = rows" if "\<forall>r \<in> set rows. \<not> ?P r"
    using that by (simp add: findIndex_None_iff [THEN iffD2])
  have first: "?R = take i rows @ drop (Suc i) rows"
    if "i < length rows" "?P (rows ! i)" "\<forall>j < i. \<not> ?P (rows ! j)" for i
  proof -
    from that have "findIndex ?P rows = Some i" by (simp add: findIndex_Some_iff)
    then show ?thesis by simp
  qed
  have "fillTime ?f = Some (timestamp e)" by (simp add: fillRow_def)
  with step none first fillRow_row [of J e]
  show "\<exists>rows' f. rowsStep J e (rows, bm, ps) = (rows' @ [f], bm, ps)
         \<and> orderId f = data e ''order_id'' \<and> isFillRow f \<and> fillTime f = Some (timestamp e)
         \<and> ((\<forall>r \<in> set rows. \<not> acceptedRowOf (data e ''order_id'') r) \<longrightarrow> rows' = rows)
         \<and> (\<forall>i < length rows.
               acceptedRowOf (data e ''order_id'') (rows ! i)
               \<and> (\<forall>j < i. \<not> acceptedRowOf (data e ''order_id'') (rows ! j)) \<longrightarrow>
               rows' = take i rows @ drop (Suc i) rows)"
    by blast
  show "\<exists>orders'. detailsStep J e (orders, om, ps) = (orders', om, ps)
            \<and> length orders' = length orders \<and> map orderId orders' = map orderId orders
            \<and> (unmatched om e \<longrightarrow> orders' = orders)
            \<and> (\<forall>oid i. data e ''order_id'' = Some oid \<and> truthy oid \<and> om oid = Some i \<longrightarrow>
                  orders' = orders[i := (orders ! i)
                    \<lparr> fillTime := Some (timestamp e),
                      filledQty :=
                        (if data e ''last_filled'' = None then filledQty (orders ! i)
                         else Some (if nonzeroNumber (parseFloat J (data e ''last_filled''))
                                    then parseFloat J (data e ''last_filled'') else Fin 0)),
                      accumulated :=
                        (if data e ''accumulated'' = None then accumulated (orders ! i)
                         else Some (if nonzeroNumber (parseFloat J (data e ''accumulated''))
                                    then parseFloat J (data e ''accumulated'') else Fin 0)),
                      status := (if msgIncludes e ''Partial fill'' then ''partial''
                                 else ''filled'') \<rparr>])"
    by (rule detailsStep_fill_rows [OF sub, unfolded filledDetail_def])
next
  assume a: "foldl (\<lambda>s e. detailsStep J e s) ([], Map.empty, []) es = (rs, tm, qs)
        \<and> tm k = Some n"
  then have "detailsInv rs tm" by (blast intro: details_pass_inv)
  with a have l: "lastRowOf rs k n" by (simp add: detailsInv_def)
  from l show "n < length rs" by (simp add: lastRowOf_def)
  from l show "orderId (rs ! n) = Some k" by (simp add: lastRowOf_def)
  from l show "\<forall>j < length rs. n < j \<longrightarrow> orderId (rs ! j) \<noteq> Some k"
    by (simp add: lastRowOf_def)
next
  show "length (extractOrderDetails J sessions)
       = length (filter idResponse (concat (map events sessions)))"
    by (rule extractOrderDetails_length)
next
  assume "orderly (events sess)"
  then show "\<forall>f \<in> set (sessionRows J sess). \<forall>r \<in> set (sessionRows J sess).
           isFillRow f \<and> orderId r = orderId f \<longrightarrow> status r \<noteq> ''accepted''"
    by (rule sessionRows_no_accepted_beside_fill)
qed

theorem fill_replaces_accepted_row_witness:
  "orderly (events goodSession)
   \<and> map (\<lambda>r. (orderId r, status r)) (sessionRows exampleHost goodSession)
       = [(Some (Num (Fin 5)), ''partial''), (Some (Num (Fin 5)), ''filled'')]
   \<and> \<not> (\<exists>f r. f \<in> set (sessionRows exampleHost goodSession)
              \<and> r \<in> set (sessionRows exampleHost goodSession)
              \<and> isFillRow f \<and> orderId r = orderId f \<and> status r = ''accepted'')
   \<and> subcategory (fillAt 3 (Num (Fin 5)) ''Partial fill'') = Some ''ORDER_FILL''
   \<and> (\<exists>f. rowsStep exampleHost (fillAt 3 (Num (Fin 5)) ''Partial fill'')
              ([responseDetail (acceptedAt 2 (Num (Fin 5)) ''ETHUSDT'') (Num (Fin 5)) None],
               Map.empty, [])
            = ([f], Map.empty, [])
         \<and> isFillRow f)
   \<and> detailsStep exampleHost (fillAt 3 (Num (Fin 5)) ''Partial fill'')
        ([responseDetail (acceptedAt 2 (Num (Fin 5)) ''ETHUSDT'') (Num (Fin 5)) None],
         [Num (Fin 5) \<mapsto> 0], [])
       = ([(responseDetail (acceptedAt 2 (Num (Fin 5)) ''ETHUSDT'') (Num (Fin 5)) None)
             \<lparr> fillTime := Some 3, filledQty := Some (Fin 1), status := ''partial'' \<rparr>],
          [Num (Fin 5) \<mapsto> 0], [])
   \<and> foldl (\<lambda>s e. detailsStep exampleHost e s) ([], Map.empty, [])
        [acceptedAt 1 (Num (Fin 5)) ''ETHUSDT'', acceptedAt 2 (Num (Fin 5)) ''ETHUSDT'']
       = ([responseDetail (acceptedAt 1 (Num (Fin 5)) ''ETHUSDT'') (Num (Fin 5)) None,
           responseDetail (acceptedAt 2 (Num (Fin 5)) ''ETHUSDT'') (Num (Fin 5)) None],
          [Num (Fin 5) \<mapsto> 1], [])
   \<and> orderId ([responseDetail (acceptedAt 1 (Num (Fin 5)) ''ETHUSDT'') (Num (Fin 5)) None,
                responseDetail (acceptedAt 2 (Num (Fin 5)) ''ETHUSDT'') (Num (Fin 5)) None] ! 1)
       = Some (Num (Fin 5))
   \<and> length (extractOrderDetails exampleHost [goodSession]) = 1"
proof -
  let ?e = "fillAt 3 (Num (Fin 5)) ''Partial fill''"
  let ?row = "responseDetail (acceptedAt 2 (Num (Fin 5)) ''ETHUSDT'') (Num (Fin 5)) None"
  let ?row1 = "responseDetail (acceptedAt 1 (Num (Fin 5)) ''ETHUSDT'') (Num (Fin 5)) None"
  let ?es = "[acceptedAt 1 (Num (Fin 5)) ''ETHUSDT'', acceptedAt 2 (Num (Fin 5)) ''ETHUSDT'']"
  note inst = fill_replaces_accepted_row
    [where e = ?e and J = exampleHost and rows = "[?row]" and bm = Map.empty and ps = "[]"
       and orders = "[?row]" and om = "[Num (Fin 5) \<mapsto> 0]"
       and es = ?es and rs = "[?row1, ?row]" and tm = "[Num (Fin 5) \<mapsto> 1]"
       and qs = "[]" and k = "Num (Fin 5)" and n = 1
       and sessions = "[goodSession]" and sess = goodSession]
  have ord: "orderly (events goodSession)"
    by (simp add: goodSession_def laterResponseIds_def idResponse_def extract_examples
        truthyO_def)
  have rows: "map (\<lambda>r. (orderId r, status r)) (sessionRows exampleHost goodSession)
       = [(Some (Num (Fin 5)), ''partial''), (Some (Num (Fin 5)), ''filled'')]"
    by (simp add: goodSession_def extract_examples extract_defs Let_def)
  from inst [THEN conjunct2, THEN conjunct2, THEN conjunct2, rule_format, OF ord]
  have no: "\<not> (\<exists>f r. f \<in> set (sessionRows exampleHost goodSession)
              \<and> r \<in> set (sessionRows exampleHost goodSession)
              \<and> isFillRow f \<and> orderId r = orderId f \<and> status r = ''accepted'')"
    by blast
  have sub: "subcategory ?e = Some ''ORDER_FILL''"
    by (simp add: extract_examples)
  have acc: "acceptedRowOf (data ?e ''order_id'') ([?row] ! 0)"
    by (simp add: extract_examples extract_defs)
  from inst [THEN conjunct1, rule_format, OF sub, THEN conjunct1]
  obtain rows' f where
    st: "rowsStep exampleHost ?e ([?row], Map.empty, []) = (rows' @ [f], Map.empty, [])"
    and fr: "isFillRow f"
    and fi: "\<forall>i < length [?row].
               acceptedRowOf (data ?e ''order_id'') ([?row] ! i)
               \<and> (\<forall>j < i. \<not> acceptedRowOf (data ?e ''order_id'') ([?row] ! j)) \<longrightarrow>
               rows' = take i [?row] @ drop (Suc i) [?row]"
    by blast
  from fi [rule_format, of 0] acc have "rows' = []" by simp
  with st fr have step: "\<exists>f. rowsStep exampleHost ?e ([?row], Map.empty, [])
            = ([f], Map.empty, []) \<and> isFillRow f"
    by auto
  have key: "data ?e ''order_id'' = Some (Num (Fin 5)) \<and> truthy (Num (Fin 5))
       \<and> [Num (Fin 5) \<mapsto> (0::nat)] (Num (Fin 5)) = Some 0"
    by (simp add: extract_examples)
  from inst [THEN conjunct1, rule_format, OF sub, THEN conjunct2]
  obtain orders' where
    ds: "detailsStep exampleHost ?e ([?row], [Num (Fin 5) \<mapsto> 0], [])
           = (orders', [Num (Fin 5) \<mapsto> 0], [])"
    and mu: "\<forall>oid i. data ?e ''order_id'' = Some oid \<and> truthy oid
                 \<and> [Num (Fin 5) \<mapsto> (0::nat)] oid = Some i \<longrightarrow>
               orders' = [?row][i := ([?row] ! i)
                 \<lparr> fillTime := Some (timestamp ?e),
                   filledQty :=
                     (if data ?e ''last_filled'' = None then filledQty ([?row] ! i)
                      else Some (if nonzeroNumber (parseFloat exampleHost (data ?e ''last_filled''))
                                 then parseFloat exampleHost (data ?e ''last_filled'')
                                 else Fin 0)),
                   accumulated :=
                     (if data ?e ''accumulated'' = None then accumulated ([?row] ! i)
                      else Some (if nonzeroNumber (parseFloat exampleHost (data ?e ''accumulated''))
                                 then parseFloat exampleHost (data ?e ''accumulated'')
                                 else Fin 0)),
                   status := (if msgIncludes ?e ''Partial fill'' then ''partial''
                              else ''filled'') \<rparr>]"
    by blast
  from mu [rule_format, OF key]
  have "orders' = [?row\<lparr> fillTime := Some 3, filledQty := Some (Fin 1), status := ''partial'' \<rparr>]"
    by (simp add: extract_examples responseDetail_def responseStatus_def msgIncludes_def
        parseFloat_def nonzeroNumber_def jsOr_def truthyO_def)
  with ds have mut: "detailsStep exampleHost ?e ([?row], [Num (Fin 5) \<mapsto> 0], [])
       = ([?row\<lparr> fillTime := Some 3, filledQty := Some (Fin 1), status := ''partial'' \<rparr>],
          [Num (Fin 5) \<mapsto> 0], [])"
    by simp
  have run: "foldl (\<lambda>s e. detailsStep exampleHost e s) ([], Map.empty, []) ?es
       = ([?row1, ?row], [Num (Fin 5) \<mapsto> 1], [])"
    by (simp add: extract_examples detailsStep_def takeSubmit_def)
  have reg: "[Num (Fin 5) \<mapsto> (1::nat)] (Num (Fin 5)) = Some 1" by simp
  from inst [THEN conjunct2, THEN conjunct1, rule_format, OF conjI, OF run reg]
  have last: "orderId ([?row1, ?row] ! 1) = Some (Num (Fin 5))"
    by blast
  from inst [THEN conjunct2, THEN conjunct2, THEN conjunct1]
  have len: "length (extractOrderDetails exampleHost [goodSession]) = 1"
    by (simp add: goodSession_def idResponse_def extract_examples truthyO_def)
  from ord rows no sub step mut run last len show ?thesis by blast
qed

subsection \<open>C10: the fill counters add up\<close>

text \<open>
  C10. For every session on which \<^verbatim>\<open>calculateSessionStats\<close> completes,
  \<^verbatim>\<open>fills.total\<close> equals \<^verbatim>\<open>fills.partial\<close> plus \<^verbatim>\<open>fills.full\<close>, and it is the number of
  processed \<^verbatim>\<open>ORDER_FILL\<close> events of the session. Each processed \<^verbatim>\<open>ORDER_FILL\<close> event
  adds one to \<^verbatim>\<open>fills.total\<close> and one to exactly one of \<^verbatim>\<open>fills.partial\<close> and
  \<^verbatim>\<open>fills.full\<close>; every other event leaves the three counters as they are.
\<close>

theorem fills_total_is_partial_plus_full:
  "(calculateSessionStats J sess = Inr stats \<longrightarrow>
      fills_total stats = fills_partial stats + fills_full stats
      \<and> fills_total stats = length (filter (processed ''ORDER_FILL'') (events sess)))
   \<and> (processEvent J e (st, om, pm) = Inr (st', om', pm') \<longrightarrow>
        (if processed ''ORDER_FILL'' e
         then fills_total st' = fills_total st + 1
              \<and> (fills_partial st' = fills_partial st + 1 \<and> fills_full st' = fills_full st
                 \<or> fills_partial st' = fills_partial st \<and> fills_full st' = fills_full st + 1)
         else fills_total st' = fills_total st \<and> fills_partial st' = fills_partial st
              \<and> fills_full st' = fills_full st))"
proof (intro conjI impI)
  assume run: "calculateSessionStats J sess = Inr stats"
  then obtain st0 om0 pm0
    where pass: "processEvents J (events sess)
                   (newSessionStats\<lparr> runtime := duration sess \<rparr>, Map.empty, []) = Inr (st0, om0, pm0)"
      and fin: "stats = countPairs pm0 st0"
    by (auto simp: calculateSessionStats_def split: sum.splits)
  from processEvents_fills [OF pass]
  have "fills_total st0 = length (filter (processed ''ORDER_FILL'') (events sess))"
    and "fills_partial st0 + fills_full st0 = fills_total st0"
    by (simp_all add: newSessionStats_def)
  with fin countPairs_fills [of pm0 st0]
  show "fills_total stats = fills_partial stats + fills_full stats"
    and "fills_total stats = length (filter (processed ''ORDER_FILL'') (events sess))"
    by simp_all
next
  assume step: "processEvent J e (st, om, pm) = Inr (st', om', pm')"
  show "if processed ''ORDER_FILL'' e
        then fills_total st' = fills_total st + 1
             \<and> (fills_partial st' = fills_partial st + 1 \<and> fills_full st' = fills_full st
                \<or> fills_partial st' = fills_partial st \<and> fills_full st' = fills_full st + 1)
        else fills_total st' = fills_total st \<and> fills_partial st' = fills_partial st
             \<and> fills_full st' = fills_full st"
    using processEvent_fill_fills [OF step] processEvent_other_fills [OF step] by simp
qed

theorem fills_total_is_partial_plus_full_witness:
  "(\<exists>stats. calculateSessionStats exampleHost fillsSession = Inr stats
      \<and> fills_total stats = 2 \<and> fills_partial stats = 1 \<and> fills_full stats = 1
      \<and> length (filter (processed ''ORDER_FILL'') (events fillsSession)) = 2)
   \<and> (\<exists>st' om' pm'.
        processEvent exampleHost (hd (events fillsSession)) (newSessionStats, Map.empty, [])
          = Inr (st', om', pm')
        \<and> processed ''ORDER_FILL'' (hd (events fillsSession))
        \<and> fills_total st' = 1 \<and> fills_partial st' = 1 \<and> fills_full st' = 0)"
proof -
  obtain stats where run: "calculateSessionStats exampleHost fillsSession = Inr stats"
    and vals: "fills_partial stats = 1" "fills_full stats = 1"
    by (simp add: calculateSessionStats_def fillsSession_def example_defs reducer_defs
        newSessionStats_def Let_def)
  have "fills_total stats = fills_partial stats + fills_full stats
        \<and> fills_total stats = length (filter (processed ''ORDER_FILL'') (events fillsSession))"
    using fills_total_is_partial_plus_full [THEN conjunct1, rule_format, OF run] .
  with run vals have first: "\<exists>stats. calculateSessionStats exampleHost fillsSession = Inr stats
      \<and> fills_total stats = 2 \<and> fills_partial stats = 1 \<and> fills_full stats = 1
      \<and> length (filter (processed ''ORDER_FILL'') (events fillsSession)) = 2"
    by auto
  have isfill: "processed ''ORDER_FILL'' (hd (events fillsSession))"
    by (simp add: fillsSession_def example_defs truthyS_def)
  obtain st' om' pm' where step:
    "processEvent exampleHost (hd (events fillsSession)) (newSessionStats, Map.empty, [])
       = Inr (st', om', pm')"
    and part: "fills_partial st' = 1"
    by (simp add: fillsSession_def example_defs reducer_defs newSessionStats_def Let_def)
  from fills_total_is_partial_plus_full [THEN conjunct2, rule_format, OF step] isfill part
  have "fills_total st' = 1 \<and> fills_full st' = 0"
    by (auto simp: newSessionStats_def)
  with step isfill part first show ?thesis by blast
qed

end
